theory Spec2Isabelle
  imports Complex_Main "HOL-Library.Word"
begin

unbundle bit_operations_syntax

section \<open>JavaScript values used by the proof-of-work core\<close>

text \<open>
  The program is TypeScript (\<open>src/interactive/bitcoin-pow-demo/src/main.ts\<close>).
  Integer-valued \<open>number\<close>s are modelled as \<open>int\<close>; the bitwise operators first
  coerce their operands with \<open>ToInt32\<close>, which is written out.  A string is a list of
  code units; only code units below 256 are represented.  \<open>NaN\<close> (the result of a
  failed \<open>parseInt\<close>) is \<open>None\<close>.  An exception is a value of \<open>js_error\<close>.
\<close>

datatype js_error = RangeError | SyntaxError | TypeError

definition ToInt32 :: "int \<Rightarrow> int" where
  "ToInt32 x = signed_take_bit 31 x"

definition ToInt32_opt :: "int option \<Rightarrow> int" where
  \<comment> \<open>\<open>NaN\<close> coerces to 0\<close>
  "ToInt32_opt v = (case v of None \<Rightarrow> 0 | Some x \<Rightarrow> ToInt32 x)"

definition js_and :: "int \<Rightarrow> int \<Rightarrow> int" where
  \<comment> \<open>\<open>a & b\<close>\<close>
  "js_and a b = ToInt32 a AND ToInt32 b"

definition js_or :: "int \<Rightarrow> int \<Rightarrow> int" where
  \<comment> \<open>\<open>a | b\<close>\<close>
  "js_or a b = ToInt32 a OR ToInt32 b"

definition js_shl :: "int \<Rightarrow> int \<Rightarrow> int" where
  \<comment> \<open>\<open>a << b\<close>: the count is taken modulo 32, the result wraps to 32 bits\<close>
  "js_shl a b = ToInt32 (push_bit (nat (b mod 32)) (ToInt32 a))"

definition js_sar :: "int \<Rightarrow> int \<Rightarrow> int" where
  \<comment> \<open>\<open>a >> b\<close>: sign-propagating shift, the count is taken modulo 32\<close>
  "js_sar a b = drop_bit (nat (b mod 32)) (ToInt32 a)"

subsection \<open>Hexadecimal digits and strings\<close>

definition hexChar :: "nat \<Rightarrow> char" where
  \<comment> \<open>the lowercase digit that \<open>toString(16)\<close> writes for a value below 16\<close>
  "hexChar d = ''0123456789abcdef'' ! (d mod 16)"

definition hexDigitVal :: "char \<Rightarrow> nat option" where
  \<comment> \<open>the value of a radix-16 digit, either case; \<open>None\<close> for any other code unit\<close>
  "hexDigitVal c =
     (let n = (of_char c :: nat) in
      if 48 \<le> n \<and> n \<le> 57 then Some (n - 48)
      else if 97 \<le> n \<and> n \<le> 102 then Some (n - 87)
      else if 65 \<le> n \<and> n \<le> 70 then Some (n - 55)
      else None)"

definition isHexDigit :: "char \<Rightarrow> bool" where
  "isHexDigit c = (hexDigitVal c \<noteq> None)"

definition isWhiteSpace :: "char \<Rightarrow> bool" where
  \<comment> \<open>TAB, LF, VT, FF, CR, SP and NBSP: the white space and line terminators below 256\<close>
  "isWhiteSpace c =
     (let n = (of_char c :: nat) in (9 \<le> n \<and> n \<le> 13) \<or> n = 32 \<or> n = 160)"

fun digits16 :: "nat \<Rightarrow> string" where
  "digits16 n = (if n < 16 then [hexChar n] else digits16 (n div 16) @ [hexChar (n mod 16)])"

declare digits16.simps [simp del]

definition toString16 :: "int \<Rightarrow> string" where
  \<comment> \<open>\<open>n.toString(16)\<close> of an integer-valued number or BigInt\<close>
  "toString16 n = (if n < 0 then CHR ''-'' # digits16 (nat (- n)) else digits16 (nat n))"

definition padStart :: "nat \<Rightarrow> char \<Rightarrow> string \<Rightarrow> string" where
  \<comment> \<open>\<open>s.padStart(n, c)\<close> with a one-character filler\<close>
  "padStart n c s = replicate (n - length s) c @ s"

definition padEnd :: "nat \<Rightarrow> char \<Rightarrow> string \<Rightarrow> string" where
  \<comment> \<open>\<open>s.padEnd(n, c)\<close> with a one-character filler\<close>
  "padEnd n c s = s @ replicate (n - length s) c"

fun hexValue :: "nat \<Rightarrow> string \<Rightarrow> nat" where
  \<comment> \<open>the mathematical value of a run of radix-16 digits, most significant first; it is
      applied to runs of digits only\<close>
  "hexValue acc [] = acc"
| "hexValue acc (c # cs) =
     hexValue (16 * acc + (case hexDigitVal c of None \<Rightarrow> 0 | Some d \<Rightarrow> d)) cs"

definition parseInt16 :: "string \<Rightarrow> int option" where
  \<comment> \<open>\<open>parseInt(s, 16)\<close>: leading white space is skipped, one sign is read, a
      \<open>0x\<close>/\<open>0X\<close> prefix is dropped, then the longest run of digits is read;
      \<open>NaN\<close> when that run is empty\<close>
  "parseInt16 s =
     (let s1 = dropWhile isWhiteSpace s;
          neg = (s1 \<noteq> [] \<and> hd s1 = CHR ''-'');
          s2 = (if s1 \<noteq> [] \<and> (hd s1 = CHR ''+'' \<or> hd s1 = CHR ''-'') then tl s1 else s1);
          s3 = (if 2 \<le> length s2 \<and> (take 2 s2 = ''0x'' \<or> take 2 s2 = ''0X'')
                then drop 2 s2 else s2);
          z = takeWhile isHexDigit s3
      in if z = [] then None
         else Some ((if neg then - 1 else 1) * int (hexValue 0 z)))"

subsection \<open>ByteCodec\<close>

type_synonym byte = "8 word"

definition bytesToHex :: "byte list \<Rightarrow> string" where
  \<comment> \<open>\<open>Array.from(bytes).map(b => b.toString(16).padStart(2, '0')).join('')\<close>\<close>
  "bytesToHex bytes = concat (map (\<lambda>b. padStart 2 CHR ''0'' (toString16 (uint b))) bytes)"

definition ToUint8 :: "int option \<Rightarrow> byte" where
  \<comment> \<open>the conversion a \<open>Uint8Array\<close> store applies: \<open>NaN\<close> becomes 0, integers wrap\<close>
  "ToUint8 v = (case v of None \<Rightarrow> 0 | Some x \<Rightarrow> word_of_int x)"

fun hexToBytes_loop :: "string \<Rightarrow> nat \<Rightarrow> byte list \<Rightarrow> byte list" where
  \<comment> \<open>\<open>for (let i = 0; i < hex.length; i += 2) bytes[i / 2] = parseInt(hex.substr(i, 2), 16)\<close>;
      the first argument is the part of \<open>hex\<close> from index \<open>i\<close> on, the second is \<open>i / 2\<close>;
      a store beyond the end of the typed array is ignored\<close>
  "hexToBytes_loop [] k bytes = bytes"
| "hexToBytes_loop (c # cs) k bytes =
     hexToBytes_loop (drop 1 cs) (Suc k)
       (bytes[k := ToUint8 (parseInt16 (take 2 (c # cs)))])"

definition hexToBytes :: "string \<Rightarrow> byte list" where
  \<comment> \<open>\<open>new Uint8Array(hex.length / 2)\<close> truncates a fractional length\<close>
  "hexToBytes hex = hexToBytes_loop hex 0 (replicate (length hex div 2) 0)"

definition reverseBytes :: "byte list \<Rightarrow> byte list" where
  "reverseBytes bytes = map (\<lambda>i. bytes ! (length bytes - 1 - i)) [0..<length bytes]"

definition reverseHex :: "string \<Rightarrow> string" where
  "reverseHex hex = bytesToHex (reverseBytes (hexToBytes hex))"

subsection \<open>CompactTargetCodec\<close>

definition bitsToTarget :: "int \<Rightarrow> string" where
  "bitsToTarget bits =
     (let exponent = js_and (js_sar bits 24) 0xff;
          coefficient = js_and bits 0x007fffff;
          coefficient = (if js_and bits 0x00800000 \<noteq> 0 then 0 else coefficient);
          target =
            (if exponent \<le> 3 then
               (let coefficient = js_sar coefficient (8 * (3 - exponent))
                in padStart 64 CHR ''0'' (toString16 coefficient))
             else
               (let coeffHex = padStart 6 CHR ''0'' (toString16 coefficient);
                    shiftBytes = exponent - 3;
                    totalHexChars = 64;
                    coeffPosition = totalHexChars - (shiftBytes * 2) - 6
                in if coeffPosition < 0 then replicate 64 CHR ''f''
                   else replicate (nat coeffPosition) CHR ''0'' @ coeffHex
                        @ replicate (nat (shiftBytes * 2)) CHR ''0''))
      in take 64 target)"

definition targetToBits :: "string \<Rightarrow> int" where
  "targetToBits targetHex =
     (let stripped = dropWhile (\<lambda>c. c = CHR ''0'') targetHex;
          stripped = (if stripped = [] then ''0'' else stripped);
          stripped = (if length stripped mod 2 \<noteq> 0 then CHR ''0'' # stripped else stripped);
          numBytes = int (length stripped div 2);
          coeffHex = padEnd 6 CHR ''0'' (take 6 stripped);
          coefficient = parseInt16 coeffHex;
          exponent = numBytes;
          hi = (js_and (ToInt32_opt coefficient) 0x800000 \<noteq> 0);
          coefficient' = (if hi then js_sar (ToInt32_opt coefficient) 8
                          else ToInt32_opt coefficient);
          exponent' = (if hi then exponent + 1 else exponent)
      in js_or (js_shl exponent' 24) coefficient')"

subsection \<open>BigInt and the comparison against the target\<close>

definition BigInt_hex :: "string \<Rightarrow> js_error + int" where
  \<comment> \<open>\<open>BigInt('0x' + s)\<close>: trailing white space is trimmed, what is left must be a
      non-empty run of radix-16 digits, anything else is a SyntaxError\<close>
  "BigInt_hex s =
     (let t = rev (dropWhile isWhiteSpace (rev s))
      in if t \<noteq> [] \<and> list_all isHexDigit t then Inr (int (hexValue 0 t))
         else Inl SyntaxError)"

definition hashMeetsTarget :: "string \<Rightarrow> string \<Rightarrow> js_error + bool" where
  "hashMeetsTarget hashHex targetHex =
     (case BigInt_hex hashHex of
        Inl e \<Rightarrow> Inl e
      | Inr hashBig \<Rightarrow>
          (case BigInt_hex targetHex of
             Inl e \<Rightarrow> Inl e
           | Inr targetBig \<Rightarrow> Inr (hashBig \<le> targetBig)))"

subsection \<open>Doubles\<close>

text \<open>
  A JavaScript number that need not be an integer is a double: \<open>NaN\<close>, an infinity, or
  a finite value \<open>m * 2 ^ e\<close>, kept as the pair of integers.  The sign of a zero is not
  kept: the code reads its doubles through \<open>Math.floor\<close>, \<open>BigInt\<close>, \<open>>\<close> and as the
  dividend of \<open>/\<close>, which do not see it, and it never divides by a zero (a zero divisor
  is taken as \<open>+0\<close>).  The result of \<open>*\<close>, \<open>-\<close> and \<open>/\<close> is the exact result rounded to the
  nearest double, ties to even, with 53 significant bits, a least exponent of \<open>-1074\<close>,
  and overflow to an infinity from \<open>2 ^ 1024\<close> on.
\<close>

datatype float64 = NaN | PosInf | NegInf | Fin int int

fun bitLength :: "nat \<Rightarrow> nat" where
  "bitLength n = (if n = 0 then 0 else Suc (bitLength (n div 2)))"

declare bitLength.simps [simp del]

definition roundHalfEven :: "int \<Rightarrow> nat \<Rightarrow> int" where
  \<comment> \<open>the integer nearest to \<open>M / 2 ^ k\<close>, the even one of two equally near\<close>
  "roundHalfEven M k =
     (let q = M div 2 ^ k; r = M mod 2 ^ k
      in if 2 * r > 2 ^ k \<or> (2 * r = 2 ^ k \<and> odd q) then q + 1 else q)"

definition roundToDouble :: "int \<Rightarrow> int \<Rightarrow> float64" where
  \<comment> \<open>the double nearest to \<open>M * 2 ^ e\<close>\<close>
  "roundToDouble M e =
     (let k = nat (max 0 (max (int (bitLength (nat \<bar>M\<bar>)) - 53) (- 1074 - e)));
          q = roundHalfEven M k;
          e' = e + int k
      in if 0 \<le> e' \<and> 2 ^ 1024 \<le> \<bar>q\<bar> * 2 ^ nat e'
         then (if q < 0 then NegInf else PosInf)
         else Fin q e')"

fun float_sub :: "float64 \<Rightarrow> float64 \<Rightarrow> float64" where
  \<comment> \<open>\<open>x - y\<close>\<close>
  "float_sub NaN y = NaN"
| "float_sub PosInf y = (case y of NaN \<Rightarrow> NaN | PosInf \<Rightarrow> NaN | _ \<Rightarrow> PosInf)"
| "float_sub NegInf y = (case y of NaN \<Rightarrow> NaN | NegInf \<Rightarrow> NaN | _ \<Rightarrow> NegInf)"
| "float_sub (Fin m1 e1) y =
     (case y of NaN \<Rightarrow> NaN | PosInf \<Rightarrow> NegInf | NegInf \<Rightarrow> PosInf
      | Fin m2 e2 \<Rightarrow>
          (let e = min e1 e2
           in roundToDouble (m1 * 2 ^ nat (e1 - e) - m2 * 2 ^ nat (e2 - e)) e))"

definition roundQuotient :: "int \<Rightarrow> int \<Rightarrow> int \<Rightarrow> float64" where
  \<comment> \<open>the double nearest to \<open>(p / q) * 2 ^ e\<close>, for \<open>q > 0\<close>: the quotient is taken with
      at least 55 bits and one more bit that tells whether the division left a remainder\<close>
  "roundQuotient p q e =
     (let s = nat (int (bitLength (nat q)) + 55 - int (bitLength (nat \<bar>p\<bar>)));
          a = \<bar>p\<bar> * 2 ^ s;
          sticky = (if a mod q = 0 then 0 else 1)
      in roundToDouble (sgn p * (2 * (a div q) + sticky)) (e - int s - 1))"

fun float_div :: "float64 \<Rightarrow> float64 \<Rightarrow> float64" where
  \<comment> \<open>\<open>x / y\<close>\<close>
  "float_div NaN y = NaN"
| "float_div PosInf y =
     (case y of NaN \<Rightarrow> NaN | PosInf \<Rightarrow> NaN | NegInf \<Rightarrow> NaN
      | Fin m e \<Rightarrow> if m < 0 then NegInf else PosInf)"
| "float_div NegInf y =
     (case y of NaN \<Rightarrow> NaN | PosInf \<Rightarrow> NaN | NegInf \<Rightarrow> NaN
      | Fin m e \<Rightarrow> if m < 0 then PosInf else NegInf)"
| "float_div (Fin m1 e1) y =
     (case y of NaN \<Rightarrow> NaN | PosInf \<Rightarrow> Fin 0 0 | NegInf \<Rightarrow> Fin 0 0
      | Fin m2 e2 \<Rightarrow>
          if m2 = 0 then (if m1 = 0 then NaN else if m1 < 0 then NegInf else PosInf)
          else if m1 = 0 then Fin 0 0
          else roundQuotient (m1 * sgn m2) \<bar>m2\<bar> (e1 - e2))"

fun float_gt :: "float64 \<Rightarrow> float64 \<Rightarrow> bool" where
  \<comment> \<open>\<open>x > y\<close>\<close>
  "float_gt NaN y = False"
| "float_gt PosInf y = (case y of NaN \<Rightarrow> False | PosInf \<Rightarrow> False | _ \<Rightarrow> True)"
| "float_gt NegInf y = False"
| "float_gt (Fin m1 e1) y =
     (case y of NaN \<Rightarrow> False | PosInf \<Rightarrow> False | NegInf \<Rightarrow> True
      | Fin m2 e2 \<Rightarrow>
          (let e = min e1 e2 in m1 * 2 ^ nat (e1 - e) > m2 * 2 ^ nat (e2 - e)))"

subsection \<open>DifficultyCalculator\<close>







subsection \<open>BlockHeaderCodec\<close>

record BlockHeader =
  version :: int
  previousBlockHash :: string
  merkleRoot :: string
  timestamp :: int
  bits :: int
  nonce :: int

definition setUint8 :: "byte list \<Rightarrow> nat \<Rightarrow> int \<Rightarrow> byte list" where
  \<comment> \<open>\<open>view.setUint8(off, v)\<close>; every offset used below lies inside the buffer\<close>
  "setUint8 view off v = view[off := word_of_int v]"

definition setUint32_le :: "byte list \<Rightarrow> nat \<Rightarrow> int \<Rightarrow> byte list" where
  \<comment> \<open>\<open>view.setUint32(off, v, true)\<close>: the value modulo \<open>2 ^ 32\<close>, least significant
      byte first\<close>
  "setUint32_le view off v =
     (let w = take_bit 32 v
      in view[off := word_of_int w,
              off + 1 := word_of_int (drop_bit 8 w),
              off + 2 := word_of_int (drop_bit 16 w),
              off + 3 := word_of_int (drop_bit 24 w)])"

definition byteOrZero :: "byte list \<Rightarrow> nat \<Rightarrow> int" where
  \<comment> \<open>\<open>bytes[i] || 0\<close>: a read beyond the end is \<open>undefined\<close>, which gives 0\<close>
  "byteOrZero bytes i = (if i < length bytes then uint (bytes ! i) else 0)"

definition serializeBlockHeader :: "BlockHeader \<Rightarrow> byte list" where
  "serializeBlockHeader header =
     (let view = replicate 80 0;
          view = setUint32_le view 0 (version header);
          prevHashBytes = hexToBytes (previousBlockHash header);
          view = fold (\<lambda>i view. setUint8 view (4 + i) (byteOrZero prevHashBytes i)) [0..<32] view;
          merkleBytes = hexToBytes (merkleRoot header);
          view = fold (\<lambda>i view. setUint8 view (36 + i) (byteOrZero merkleBytes i)) [0..<32] view;
          view = setUint32_le view 68 (timestamp header);
          view = setUint32_le view 72 (bits header);
          view = setUint32_le view 76 (nonce header)
      in view)"

subsection \<open>MemoryHardKDF: Salsa20/8, BlockMix, ROMix\<close>

text \<open>
  A \<open>Uint32Array\<close> is a list of 32-bit words.  A read beyond its end gives
  \<open>undefined\<close>, which every use below coerces to 0; a store beyond its end is ignored,
  as \<open>xs[i := v]\<close> does.  The functions mutate their argument \<open>B\<close>; the model returns
  the new contents.
\<close>

type_synonym u32 = "32 word"

definition rd :: "u32 list \<Rightarrow> int \<Rightarrow> u32" where
  "rd a i = (if 0 \<le> i \<and> i < int (length a) then a ! nat i else 0)"

definition R :: "u32 \<Rightarrow> nat \<Rightarrow> u32" where
  \<comment> \<open>\<open>((a << b) | (a >>> (32 - b))) >>> 0\<close>, on the sum taken modulo \<open>2 ^ 32\<close>\<close>
  "R a b = push_bit b a OR drop_bit (32 - b) a"

definition arx :: "u32 list \<Rightarrow> nat \<times> nat \<times> nat \<times> nat \<Rightarrow> u32 list" where
  \<comment> \<open>\<open>x[t] ^= R(x[a] + x[b], k)\<close>\<close>
  "arx x q = (case q of (t, a, b, k) \<Rightarrow> x[t := x ! t XOR R (x ! a + x ! b) k])"

definition columnRound :: "(nat \<times> nat \<times> nat \<times> nat) list" where
  "columnRound =
     [(4, 0, 12, 7), (8, 4, 0, 9), (12, 8, 4, 13), (0, 12, 8, 18),
      (9, 5, 1, 7), (13, 9, 5, 9), (1, 13, 9, 13), (5, 1, 13, 18),
      (14, 10, 6, 7), (2, 14, 10, 9), (6, 2, 14, 13), (10, 6, 2, 18),
      (3, 15, 11, 7), (7, 3, 15, 9), (11, 7, 3, 13), (15, 11, 7, 18)]"

definition rowRound :: "(nat \<times> nat \<times> nat \<times> nat) list" where
  "rowRound =
     [(1, 0, 3, 7), (2, 1, 0, 9), (3, 2, 1, 13), (0, 3, 2, 18),
      (6, 5, 4, 7), (7, 6, 5, 9), (4, 7, 6, 13), (5, 4, 7, 18),
      (11, 10, 9, 7), (8, 11, 10, 9), (9, 8, 11, 13), (10, 9, 8, 18),
      (12, 15, 14, 7), (13, 12, 15, 9), (14, 13, 12, 13), (15, 14, 13, 18)]"

definition doubleRound :: "u32 list \<Rightarrow> u32 list" where
  \<comment> \<open>one pass of the body of \<open>for (let i = 0; i < 4; i++)\<close>\<close>
  "doubleRound x = fold (\<lambda>q x. arx x q) (columnRound @ rowRound) x"

definition salsa20_8 :: "u32 list \<Rightarrow> u32 list" where
  "salsa20_8 B =
     (let x = map (\<lambda>i. rd B (int i)) [0..<16];
          x = (doubleRound ^^ 4) x
      in fold (\<lambda>i B. B[i := rd B (int i) + x ! i]) [0..<16] B)"

definition scryptBlockMix :: "u32 list \<Rightarrow> nat \<Rightarrow> u32 list" where
  "scryptBlockMix B r =
     (let X = map (\<lambda>i. rd B ((2 * int r - 1) * 16 + int i)) [0..<16];
          Y = replicate (32 * r) 0;
          XY = fold (\<lambda>i (X, Y).
                 (let X = fold (\<lambda>j X. X[j := X ! j XOR rd B (int (i * 16 + j))]) [0..<16] X;
                      X = salsa20_8 X;
                      Y = fold (\<lambda>j Y. Y[i * 16 + j := X ! j]) [0..<16] Y
                  in (X, Y))) [0..<2 * r] (X, Y);
          Y = snd XY
      in fold (\<lambda>i B.
           fold (\<lambda>j B. (B[i * 16 + j := rd Y (int (i * 2 * 16 + j))])
                          [(r + i) * 16 + j := rd Y (int ((i * 2 + 1) * 16 + j))])
             [0..<16] B) [0..<r] B)"

definition romixIndex :: "u32 list \<Rightarrow> nat \<Rightarrow> nat \<Rightarrow> int" where
  \<comment> \<open>\<open>B[(2 * r - 1) * 16] & (N - 1)\<close>\<close>
  "romixIndex B N r = js_and (uint (rd B ((2 * int r - 1) * 16))) (int N - 1)"

definition romixStep :: "u32 list list \<Rightarrow> nat \<Rightarrow> nat \<Rightarrow> u32 list \<Rightarrow> js_error + u32 list" where
  \<comment> \<open>the body of the second loop of \<open>scryptROMix\<close>; \<open>V[j][k]\<close> is a TypeError when
      \<open>V[j]\<close> is \<open>undefined\<close>\<close>
  "romixStep V N r B =
     (let blockSize = 32 * r;
          j = romixIndex B N r
      in if blockSize = 0 then Inr (scryptBlockMix B r)
         else if 0 \<le> j \<and> j < int (length V) then
           Inr (scryptBlockMix
                  (fold (\<lambda>k B. B[k := rd B (int k) XOR rd (V ! nat j) (int k)]) [0..<blockSize] B) r)
         else Inl TypeError)"

fun romixFill :: "nat \<Rightarrow> nat \<Rightarrow> u32 list \<Rightarrow> u32 list list \<Rightarrow> u32 list \<times> u32 list list" where
  \<comment> \<open>the first loop, by the number of iterations left: \<open>V[i] = new Uint32Array(B)\<close> fills
      the slots in order, here by appending\<close>
  "romixFill 0 r B V = (B, V)"
| "romixFill (Suc n) r B V = romixFill n r (scryptBlockMix B r) (V @ [B])"

fun romixMix :: "nat \<Rightarrow> u32 list list \<Rightarrow> nat \<Rightarrow> nat \<Rightarrow> u32 list \<Rightarrow> js_error + u32 list" where
  \<comment> \<open>the second loop, by the number of iterations left\<close>
  "romixMix 0 V N r B = Inr B"
| "romixMix (Suc n) V N r B =
     (case romixStep V N r B of Inl e \<Rightarrow> Inl e | Inr B' \<Rightarrow> romixMix n V N r B')"

definition scryptROMix :: "u32 list \<Rightarrow> nat \<Rightarrow> nat \<Rightarrow> js_error + u32 list" where
  \<comment> \<open>\<open>new Array(N)\<close> is a RangeError from \<open>2 ^ 32\<close> on\<close>
  "scryptROMix B N r =
     (if 2 ^ 32 \<le> N then Inl RangeError
      else (case romixFill N r B [] of (B1, V) \<Rightarrow> romixMix N V N r B1))"

definition specIndex :: "u32 list \<Rightarrow> nat \<Rightarrow> int" where
  \<comment> \<open>the index as the specification words it: the last 32-bit word of the state,
      ANDed with \<open>N - 1\<close>\<close>
  "specIndex B N = js_and (uint (rd B (int (length B) - 1))) (int N - 1)"

definition xorBlocks :: "u32 list \<Rightarrow> u32 list \<Rightarrow> u32 list" where
  \<comment> \<open>the specification's \<open>state XOR V[j]\<close>, word by word\<close>
  "xorBlocks A B = map (\<lambda>(a, b). a XOR b) (zip A B)"

subsection \<open>ProofOfWorkSearch\<close>

text \<open>
  \<open>mineBlock\<close> is an \<open>async\<close> function that reads the clock, reads the module
  variable \<open>shouldStopMining\<close> (written by \<open>stopMining\<close> from another task), and
  calls its \<open>onProgress\<close> argument.  The model passes the state explicitly:
  \<^item> the digest primitive behind \<open>sha256Bytes\<close> (\<open>crypto.subtle.digest\<close>) is a
    parameter;
  \<^item> the environment gives the \<open>k\<close>-th reading of \<open>performance.now()\<close> and the value
    that \<open>shouldStopMining\<close> has after the search has been suspended \<open>k\<close> times (it
    can change only while the search is suspended in an \<open>await\<close>); times are
    doubles, and \<open>elapsedTime\<close> and \<open>hashRate\<close> are computed in double arithmetic;
  \<^item> the calls of \<open>onProgress\<close> are recorded in order (the callback is taken to
    return normally and to leave the header alone);
  \<^item> the header object is part of the state, as the search writes its \<open>nonce\<close>; no
    other task writes it or \<open>currentMiningStats\<close> while the search runs (one search
    at a time).
  A result is the value returned or the exception thrown, together with the final state.
\<close>

record MiningStats =
  hashesComputed :: int
  startTime :: float64
  hashRate :: float64
  elapsedTime :: float64

record MiningResult =
  success :: bool
  res_nonce :: int
  res_hash :: string
  res_stats :: MiningStats

record Env =
  performance_now :: "nat \<Rightarrow> float64"
  shouldStopMining :: "nat \<Rightarrow> bool"

datatype outcome = Returned MiningResult | Thrown js_error

record SearchState =
  st_header :: BlockHeader
  st_nonce :: int
  st_hash :: string
  currentMiningStats :: MiningStats
  lastUpdateTime :: float64
  clockReads :: nat
  resumes :: nat
  onProgress :: "(int \<times> string \<times> MiningStats) list"

definition batchSize :: nat where
  "batchSize = 100"

definition doubleSha256Bytes :: "(byte list \<Rightarrow> byte list) \<Rightarrow> byte list \<Rightarrow> byte list" where
  "doubleSha256Bytes sha256Bytes data = sha256Bytes (sha256Bytes data)"

definition digestOf :: "(byte list \<Rightarrow> byte list) \<Rightarrow> BlockHeader \<Rightarrow> int \<Rightarrow> string" where
  \<comment> \<open>the displayed digest of the header with its nonce set to \<open>n\<close>\<close>
  "digestOf sha256Bytes header n =
     bytesToHex (reverseBytes (doubleSha256Bytes sha256Bytes
       (serializeBlockHeader (header\<lparr>nonce := n\<rparr>))))"

definition attempt ::
  "(byte list \<Rightarrow> byte list) \<Rightarrow> Env \<Rightarrow> string \<Rightarrow> SearchState \<Rightarrow> outcome option \<times> SearchState" where
  \<comment> \<open>the body of the \<open>for\<close> loop; \<open>None\<close> when the loop goes on\<close>
  "attempt sha256Bytes env target s =
     (let header = (st_header s)\<lparr>nonce := st_nonce s\<rparr>;
          serialized = serializeBlockHeader header;
          hashBytes = doubleSha256Bytes sha256Bytes serialized;
          hash = bytesToHex (reverseBytes hashBytes);
          stats = currentMiningStats s;
          stats = stats\<lparr>hashesComputed := hashesComputed stats + 1\<rparr>;
          now = performance_now env (clockReads s);
          stats = stats\<lparr>elapsedTime := float_div (float_sub now (startTime stats)) (Fin 1000 0)\<rparr>;
          stats = (if float_gt (elapsedTime stats) (Fin 0 0)
                   then stats\<lparr>hashRate := float_div (Fin (hashesComputed stats) 0) (elapsedTime stats)\<rparr>
                   else stats);
          s = s\<lparr>st_header := header, st_hash := hash, currentMiningStats := stats,
                clockReads := clockReads s + 1, resumes := resumes s + 1\<rparr>
      in case hashMeetsTarget hash target of
           Inl e \<Rightarrow> (Some (Thrown e), s)
         | Inr meets \<Rightarrow>
             (if meets then
                (Some (Returned \<lparr>success = True, res_nonce = st_nonce s, res_hash = hash,
                                 res_stats = stats\<rparr>),
                 s\<lparr>onProgress := onProgress s @ [(st_nonce s, hash, stats)]\<rparr>)
              else (None, s\<lparr>st_nonce := st_nonce s + 1\<rparr>)))"

function batchLoop ::
  "(byte list \<Rightarrow> byte list) \<Rightarrow> Env \<Rightarrow> string \<Rightarrow> int \<Rightarrow> nat \<Rightarrow> SearchState
     \<Rightarrow> outcome option \<times> SearchState" where
  \<comment> \<open>\<open>for (let i = 0; i < batchSize && nonce < maxAttempts && !shouldStopMining; i++)\<close>\<close>
  "batchLoop sha256Bytes env target maxAttempts i s =
     (if i < batchSize \<and> st_nonce s < maxAttempts \<and> \<not> shouldStopMining env (resumes s) then
        (case attempt sha256Bytes env target s of
           (Some out, s') \<Rightarrow> (Some out, s')
         | (None, s') \<Rightarrow> batchLoop sha256Bytes env target maxAttempts (Suc i) s')
      else (None, s))"
  by pat_completeness auto
termination
  by (relation "measure (\<lambda>(sha256Bytes, env, target, maxAttempts, i, s). batchSize - i)") auto

declare batchLoop.simps [simp del]

definition reportProgress :: "Env \<Rightarrow> SearchState \<Rightarrow> SearchState" where
  \<comment> \<open>the end of the \<open>while\<close> body: a report and a suspension when more than 50 ms have
      passed since the last report\<close>
  "reportProgress env s =
     (let now = performance_now env (clockReads s);
          s = s\<lparr>clockReads := clockReads s + 1\<rparr>
      in if float_gt (float_sub now (lastUpdateTime s)) (Fin 50 0) then
           s\<lparr>onProgress := onProgress s @ [(st_nonce s - 1, st_hash s, currentMiningStats s)],
             lastUpdateTime := now, resumes := resumes s + 1\<rparr>
         else s)"

function searchLoop ::
  "(byte list \<Rightarrow> byte list) \<Rightarrow> Env \<Rightarrow> string \<Rightarrow> int \<Rightarrow> SearchState \<Rightarrow> outcome \<times> SearchState" where
  \<comment> \<open>\<open>while (nonce < maxAttempts && !shouldStopMining)\<close> and the final \<open>return\<close>\<close>
  "searchLoop sha256Bytes env target maxAttempts s =
     (if st_nonce s < maxAttempts \<and> \<not> shouldStopMining env (resumes s) then
        (case batchLoop sha256Bytes env target maxAttempts 0 s of
           (Some out, s') \<Rightarrow> (out, s')
         | (None, s') \<Rightarrow> searchLoop sha256Bytes env target maxAttempts (reportProgress env s'))
      else (Returned \<lparr>success = False, res_nonce = st_nonce s, res_hash = st_hash s,
                      res_stats = currentMiningStats s\<rparr>, s))"
  by pat_completeness auto
termination
proof (relation "measure (\<lambda>(sha256Bytes, env, target, maxAttempts, s). nat (maxAttempts - st_nonce s))",
    goal_cases)
  case 1
  show ?case by simp
next
  case (2 sha256Bytes env target maxAttempts s x1 s')
  have step: "attempt f e tg t = (None, t') \<Longrightarrow> st_nonce t' = st_nonce t + 1"
    for f e tg t t'
    by (auto simp: attempt_def Let_def split: sum.splits if_splits)
  have mono: "batchLoop f e tg m i t = (None, t') \<Longrightarrow>
      st_nonce t \<le> st_nonce t' \<and>
      (i < batchSize \<and> st_nonce t < m \<and> \<not> shouldStopMining e (resumes t)
         \<longrightarrow> st_nonce t < st_nonce t')" for f e tg m i t t'
  proof (induction f e tg m i t rule: batchLoop.induct)
    case (1 f e tg m i t)
    show ?case
    proof (cases "i < batchSize \<and> st_nonce t < m \<and> \<not> shouldStopMining e (resumes t)")
      case False
      with 1(2) show ?thesis by (simp add: batchLoop.simps)
    next
      case True
      obtain o1 t1 where a: "attempt f e tg t = (o1, t1)"
        by (cases "attempt f e tg t")
      show ?thesis
      proof (cases o1)
        case (Some out)
        with 1(2) True a show ?thesis by (simp add: batchLoop.simps)
      next
        case None
        with 1(2) True a have b: "batchLoop f e tg m (Suc i) t1 = (None, t')"
          by (simp add: batchLoop.simps)
        from 1(1) [OF True a [symmetric] None b] step [OF a [unfolded None]] True
        show ?thesis by simp
      qed
    qed
  qed
  from 2 mono [of sha256Bytes env target maxAttempts 0 s s'] have "st_nonce s < st_nonce s'"
    by (simp add: batchSize_def)
  moreover have "st_nonce (reportProgress env s') = st_nonce s'"
    by (simp add: reportProgress_def Let_def)
  ultimately show ?case using 2 by simp
qed

declare searchLoop.simps [simp del]

definition mineBlock ::
  "(byte list \<Rightarrow> byte list) \<Rightarrow> Env \<Rightarrow> BlockHeader \<Rightarrow> int \<Rightarrow> outcome \<times> SearchState" where
  "mineBlock sha256Bytes env header maxAttempts =
     (let stats = \<lparr>hashesComputed = 0, startTime = performance_now env 0, hashRate = Fin 0 0,
                   elapsedTime = Fin 0 0\<rparr>;
          target = bitsToTarget (bits header);
          s = \<lparr>st_header = header, st_nonce = 0, st_hash = [], currentMiningStats = stats,
               lastUpdateTime = performance_now env 1, clockReads = 2, resumes = 0,
               onProgress = []\<rparr>
      in searchLoop sha256Bytes env target maxAttempts s)"

subsection \<open>Predicates and example inputs used in the statements below\<close>

definition isLowerHexDigit :: "char \<Rightarrow> bool" where
  "isLowerHexDigit c = (c \<in> set ''0123456789abcdef'')"

definition exponentOf :: "int \<Rightarrow> int" where
  \<comment> \<open>byte 3 of a compact value, as \<open>bitsToTarget\<close> reads it\<close>
  "exponentOf b = js_and (js_sar b 24) 0xff"

definition sameButNonce :: "BlockHeader \<Rightarrow> BlockHeader \<Rightarrow> bool" where
  "sameButNonce h h' =
     (version h' = version h \<and> previousBlockHash h' = previousBlockHash h
      \<and> merkleRoot h' = merkleRoot h \<and> timestamp h' = timestamp h \<and> bits h' = bits h)"



definition searchInv :: "BlockHeader \<Rightarrow> int \<Rightarrow> SearchState \<Rightarrow> bool" where
  \<comment> \<open>the cursor has not passed \<open>n\<close>, one hash was counted per nonce tried, and the header
      is the caller's up to its nonce\<close>
  "searchInv header n s =
     (0 \<le> st_nonce s \<and> st_nonce s \<le> n
      \<and> hashesComputed (currentMiningStats s) = st_nonce s
      \<and> sameButNonce header (st_header s))"

definition moreThan50 :: "float64 \<Rightarrow> float64 \<Rightarrow> bool" where
  \<comment> \<open>\<open>now - last > 50\<close>, in double arithmetic\<close>
  "moreThan50 now lastUpdate = float_gt (float_sub now lastUpdate) (Fin 50 0)"




definition foundAt :: "int \<Rightarrow> MiningResult \<Rightarrow> bool" where
  "foundAt n res = (success res \<and> res_nonce res = n \<and> hashesComputed (res_stats res) = n + 1)"

definition toyDigest :: "byte list \<Rightarrow> byte list" where
  \<comment> \<open>a stand-in for the digest primitive: of an 80-byte header it keeps the low byte of
      the nonce; of anything else, 31 zero bytes and one minus the first byte\<close>
  "toyDigest data =
     (if length data = 80 then [data ! 76]
      else (case data of [] \<Rightarrow> replicate 32 0 | b # _ \<Rightarrow> replicate 31 0 @ [1 - b]))"

definition exampleHeader :: BlockHeader where
  "exampleHeader =
     \<lparr>version = 0x20000000, previousBlockHash = replicate 64 CHR ''0'',
      merkleRoot = replicate 64 CHR ''0'', timestamp = 0, bits = 0x1d00ffff, nonce = 0\<rparr>"

definition frozenClock :: "nat \<Rightarrow> float64" where
  "frozenClock k = Fin 0 0"


definition neverStopped :: "nat \<Rightarrow> bool" where
  "neverStopped k = False"

definition stoppedAfterFirst :: "nat \<Rightarrow> bool" where
  \<comment> \<open>\<open>stopMining\<close> runs while the first digest is awaited\<close>
  "stoppedAfterFirst k = (0 < k)"

definition quietEnv :: Env where
  "quietEnv = \<lparr>performance_now = frozenClock, shouldStopMining = neverStopped\<rparr>"


definition cancellingEnv :: Env where
  "cancellingEnv = \<lparr>performance_now = frozenClock, shouldStopMining = stoppedAfterFirst\<rparr>"



definition finValue :: "int \<Rightarrow> int \<Rightarrow> real" where
  \<comment> \<open>the number \<open>m * 2 ^ e\<close>\<close>
  "finValue m e = (if 0 \<le> e then of_int m * 2 ^ nat e else of_int m / 2 ^ nat (- e))"





fun mixPhase :: "nat \<Rightarrow> u32 list list \<Rightarrow> nat \<Rightarrow> nat \<Rightarrow> u32 list \<Rightarrow> u32 list" where
  \<comment> \<open>the mix phase as whole-block steps: \<open>n\<close> times,
      \<open>j = state[(2r - 1) * 16] & (N - 1)\<close> and \<open>state = BlockMix(state XOR V[j])\<close>\<close>
  "mixPhase 0 V N r X = X"
| "mixPhase (Suc n) V N r X =
     mixPhase n V N r (scryptBlockMix (xorBlocks X (V ! nat (romixIndex X N r))) r)"

definition blocksOfSize :: "nat \<Rightarrow> u32 list list \<Rightarrow> bool" where
  "blocksOfSize n V = list_all (\<lambda>v. length v = n) V"

definition exampleState :: "u32 list" where
  \<comment> \<open>a state for \<open>r = 1\<close>: word 16 is 1, every other word is 0\<close>
  "exampleState = replicate 16 0 @ [1] @ replicate 15 0"

definition exampleTable :: "u32 list list" where
  "exampleTable = [replicate 32 0, replicate 32 1]"

section \<open>Facts about the codecs\<close>

lemma ToInt32_small: "0 \<le> x \<Longrightarrow> x < 2 ^ 31 \<Longrightarrow> ToInt32 x = x"
  unfolding ToInt32_def by (simp add: signed_take_bit_int_eq_self)

lemma js_and_mask_bounds:
  assumes "0 \<le> m" "m < 2 ^ 31"
  shows "0 \<le> js_and a m" and "js_and a m \<le> m"
  using assms by (simp_all add: js_and_def ToInt32_small AND_upper2')

lemma js_sar_small:
  assumes "0 \<le> x" "x < 2 ^ 31"
  shows "js_sar x k = x div 2 ^ nat (k mod 32)"
  using assms by (simp add: js_sar_def ToInt32_small drop_bit_eq_div)

lemma hexChar_cases:
  assumes "(d::nat) < 16"
  shows "d = 0 \<or> d = 1 \<or> d = 2 \<or> d = 3 \<or> d = 4 \<or> d = 5 \<or> d = 6 \<or> d = 7 \<or> d = 8 \<or> d = 9
    \<or> d = 10 \<or> d = 11 \<or> d = 12 \<or> d = 13 \<or> d = 14 \<or> d = 15"
  using assms by arith

lemma hexChar_lower: "isLowerHexDigit (hexChar d)"
proof -
  have "d mod 16 < 16" by simp
  from hexChar_cases [OF this] show ?thesis
    unfolding hexChar_def isLowerHexDigit_def
    by (elim disjE) simp_all
qed

lemma digits16_lower: "list_all isLowerHexDigit (digits16 n)"
proof (induction n rule: digits16.induct)
  case (1 n)
  show ?case
  proof (cases "n < 16")
    case True
    then show ?thesis by (subst digits16.simps) (simp add: hexChar_lower)
  next
    case False
    with 1 show ?thesis by (subst digits16.simps) (simp add: hexChar_lower)
  qed
qed

lemma digits16_length: "0 < k \<Longrightarrow> n < 16 ^ k \<Longrightarrow> length (digits16 n) \<le> k"
proof (induction n arbitrary: k rule: digits16.induct)
  case (1 n)
  show ?case
  proof (cases "n < 16")
    case True
    with 1(2) show ?thesis by (subst digits16.simps) simp
  next
    case False
    obtain j where k: "k = Suc j" using 1(2) by (cases k) simp_all
    have j: "0 < j"
    proof (cases j)
      case 0
      with k 1(3) False show ?thesis by simp
    qed simp
    have "n < 16 * 16 ^ j" using 1(3) k by simp
    then have "n div 16 < 16 ^ j" by (simp add: less_mult_imp_div_less mult.commute)
    with 1(1) [OF False j] have "length (digits16 (n div 16)) \<le> j" .
    then show ?thesis using False k by (subst digits16.simps) simp
  qed
qed

lemma padStart_length: "length s \<le> n \<Longrightarrow> length (padStart n c s) = n"
  by (simp add: padStart_def)

lemma list_all_replicate: "P x \<Longrightarrow> list_all P (replicate n x)"
  by (simp add: list_all_iff)

lemma isLowerHexDigit_0: "isLowerHexDigit CHR ''0''"
  by (simp add: isLowerHexDigit_def)

lemma isLowerHexDigit_f: "isLowerHexDigit CHR ''f''"
  by (simp add: isLowerHexDigit_def)

lemma padStart_lower:
  "list_all isLowerHexDigit s \<Longrightarrow> list_all isLowerHexDigit (padStart n CHR ''0'' s)"
  by (simp add: padStart_def list_all_replicate isLowerHexDigit_0)

lemma toString16_nonneg_length:
  assumes "0 \<le> x" "x < 16 ^ k" "0 < k"
  shows "length (toString16 x) \<le> k"
proof -
  have "nat x < 16 ^ k" using assms(1,2) by (simp add: nat_less_iff)
  with assms show ?thesis by (simp add: toString16_def digits16_length)
qed

lemma toString16_nonneg_lower: "0 \<le> x \<Longrightarrow> list_all isLowerHexDigit (toString16 x)"
  by (simp add: toString16_def digits16_lower)

lemma bitsToTarget_low:
  assumes "exponentOf b \<le> 3"
  shows "length (bitsToTarget b) = 64 \<and> list_all isLowerHexDigit (bitsToTarget b)"
proof -
  define c where "c = (if js_and b 0x00800000 \<noteq> 0 then 0 else js_and b 0x007fffff)"
  define sh where "sh = js_sar c (8 * (3 - exponentOf b))"
  have c: "0 \<le> c" "c \<le> 0x7fffff"
    using js_and_mask_bounds [of "0x007fffff" b] by (simp_all add: c_def)
  then have sh_eq: "sh = c div 2 ^ nat ((8 * (3 - exponentOf b)) mod 32)"
    unfolding sh_def by (intro js_sar_small) simp_all
  have sh0: "0 \<le> sh" using c sh_eq by (simp add: pos_imp_zdiv_nonneg_iff)
  have "sh \<le> c" unfolding sh_eq using c(1)
    by (metis div_by_1 zdiv_mono2 zero_less_one one_le_numeral one_le_power)
  then have sh1: "sh < 16 ^ 6" using c by simp
  have len: "length (toString16 sh) \<le> 64"
    using toString16_nonneg_length [OF sh0 sh1] by simp
  have bt: "bitsToTarget b = take 64 (padStart 64 CHR ''0'' (toString16 sh))"
    using assms by (simp add: bitsToTarget_def exponentOf_def Let_def sh_def c_def)
  show ?thesis
    unfolding bt using len padStart_length [OF len, of "CHR ''0''"]
      padStart_lower [OF toString16_nonneg_lower [OF sh0], of 64]
    by simp
qed

lemma bitsToTarget_high:
  assumes "3 < exponentOf b"
  shows "length (bitsToTarget b) = 64 \<and> list_all isLowerHexDigit (bitsToTarget b)
     \<and> (32 < exponentOf b \<longrightarrow> bitsToTarget b = replicate 64 CHR ''f'')"
proof -
  define c where "c = (if js_and b 0x00800000 \<noteq> 0 then 0 else js_and b 0x007fffff)"
  define e where "e = exponentOf b"
  have c: "0 \<le> c" "c < 16 ^ 6"
    using js_and_mask_bounds [of "0x007fffff" b] by (simp_all add: c_def)
  have len: "length (padStart 6 CHR ''0'' (toString16 c)) = 6"
    using toString16_nonneg_length [OF c] by (simp add: padStart_length)
  have low: "list_all isLowerHexDigit (padStart 6 CHR ''0'' (toString16 c))"
    using c(1) by (simp add: padStart_lower toString16_nonneg_lower)
  have bt: "bitsToTarget b =
      take 64 (if 64 - (e - 3) * 2 - 6 < 0 then replicate 64 CHR ''f''
        else replicate (nat (64 - (e - 3) * 2 - 6)) CHR ''0'' @ padStart 6 CHR ''0'' (toString16 c)
          @ replicate (nat ((e - 3) * 2)) CHR ''0'')"
    using assms by (simp add: bitsToTarget_def exponentOf_def Let_def c_def e_def)
  show ?thesis
  proof (cases "32 < e")
    case True
    then show ?thesis unfolding bt e_def [symmetric]
      by (simp add: list_all_replicate isLowerHexDigit_f)
  next
    case False
    then have "nat (64 - (e - 3) * 2 - 6) + 6 + nat ((e - 3) * 2) = 64"
      using assms by (simp add: e_def)
    with False low show ?thesis unfolding bt e_def [symmetric]
      by (simp add: len list_all_replicate isLowerHexDigit_0)
  qed
qed

text \<open>
  Claim C8.  For every compact value, in particular for every valid one with exponent in
  \<open>[3, 32]\<close>, \<open>bitsToTarget\<close> returns a string of exactly 64 characters, each a
  lowercase hexadecimal digit; in the overflow case (exponent above 32) the string is 64
  times \<open>f\<close>.
\<close>

theorem bitsToTarget_is_64_lowercase_hex:
  "length (bitsToTarget b) = 64 \<and> list_all isLowerHexDigit (bitsToTarget b)
     \<and> (32 < exponentOf b \<longrightarrow> bitsToTarget b = replicate 64 CHR ''f'')"
  using bitsToTarget_low [of b] bitsToTarget_high [of b]
  by (cases "exponentOf b \<le> 3") auto

text \<open>
  Claim C10.  For a target string made of zero characters only, of any length,
  \<open>targetToBits\<close> returns \<open>0x01000000\<close> (exponent 1, coefficient 0, sign bit clear), not
  0, and \<open>bitsToTarget\<close> of that value is the zero target again.
\<close>

theorem targetToBits_zero_target:
  "targetToBits (replicate n CHR ''0'') = 0x01000000
     \<and> bitsToTarget 0x01000000 = replicate 64 CHR ''0''"
proof
  have "dropWhile (\<lambda>c. c = CHR ''0'') (replicate n CHR ''0'') = []"
    by simp
  moreover have "padEnd 6 CHR ''0'' ''00'' = ''000000''"
    by (simp add: padEnd_def eval_nat_numeral)
  moreover have "parseInt16 ''000000'' = Some 0"
    by (simp add: parseInt16_def isWhiteSpace_def isHexDigit_def hexDigitVal_def)
  ultimately show "targetToBits (replicate n CHR ''0'') = 0x01000000"
    by (simp add: targetToBits_def Let_def ToInt32_opt_def js_and_def js_or_def js_shl_def
        ToInt32_def)
  have "replicate 63 CHR ''0'' @ ''0'' = replicate (Suc 63) CHR ''0''"
    by (simp only: replicate_append_same replicate_Suc)
  then have r: "replicate 63 CHR ''0'' @ ''0'' = replicate 64 CHR ''0''"
    by simp
  show "bitsToTarget 0x01000000 = replicate 64 CHR ''0''"
    by (simp add: bitsToTarget_def Let_def js_and_def js_sar_def ToInt32_def padStart_def
        toString16_def digits16.simps [of 0] hexChar_def r)
qed

theorem bitsToTarget_is_64_lowercase_hex_witness:
  "32 < exponentOf 0x2100ffff \<and> bitsToTarget 0x2100ffff = replicate 64 CHR ''f''"
proof -
  have e: "32 < exponentOf 0x2100ffff"
    by (simp add: exponentOf_def js_and_def js_sar_def ToInt32_def)
  with bitsToTarget_is_64_lowercase_hex [of "0x2100ffff"] show ?thesis by simp
qed

subsection \<open>hexToBytes\<close>

lemma hexToBytes_loop_length: "length (hexToBytes_loop cs k bytes) = length bytes"
  by (induction cs k bytes rule: hexToBytes_loop.induct) simp_all

lemma drop_pair: "drop (2 * Suc j) (c # cs) = drop (2 * j) (drop 1 cs)"
  by (simp add: drop_Cons')

lemma hexToBytes_loop_nth:
  "i < length bytes \<Longrightarrow>
   hexToBytes_loop cs k bytes ! i =
     (if k \<le> i \<and> i < k + (length cs + 1) div 2
      then ToUint8 (parseInt16 (take 2 (drop (2 * (i - k)) cs)))
      else bytes ! i)"
proof (induction cs k bytes rule: hexToBytes_loop.induct)
  case (1 k bytes)
  show ?case by auto
next
  case (2 c cs k bytes)
  define v where "v = ToUint8 (parseInt16 (take 2 (c # cs)))"
  define rest where "rest = drop 1 cs"
  have unf: "hexToBytes_loop (c # cs) k bytes = hexToBytes_loop rest (Suc k) (bytes[k := v])"
    by (simp add: v_def rest_def)
  have len: "i < length (bytes[k := ToUint8 (parseInt16 (take 2 (c # cs)))])"
    using 2(2) by simp
  have half: "(length rest + 1) div 2 + 1 = (length (c # cs) + 1) div 2"
    unfolding rest_def by (cases cs) simp_all
  have IH: "hexToBytes_loop rest (Suc k) (bytes[k := v]) ! i =
     (if Suc k \<le> i \<and> i < Suc k + (length rest + 1) div 2
      then ToUint8 (parseInt16 (take 2 (drop (2 * (i - Suc k)) rest)))
      else bytes[k := v] ! i)"
    using 2(1) [OF len] unfolding v_def rest_def .
  consider (eq) "i = k" | (mid) "k < i" "i < k + (length (c # cs) + 1) div 2"
    | (out) "i < k \<or> k + (length (c # cs) + 1) div 2 \<le> i" "i \<noteq> k"
    by arith
  then show ?case
  proof cases
    case eq
    have c1: "\<not> (Suc k \<le> i \<and> i < Suc k + (length rest + 1) div 2)" using eq by simp
    have c2: "k \<le> i \<and> i < k + (length (c # cs) + 1) div 2" using eq by simp
    have "hexToBytes_loop (c # cs) k bytes ! i = bytes[k := v] ! i"
      by (simp only: unf IH if_not_P [OF c1])
    also have "\<dots> = v" using eq 2(2) by simp
    also have "v = ToUint8 (parseInt16 (take 2 (drop (2 * (i - k)) (c # cs))))"
      using eq by (simp add: v_def)
    finally show ?thesis by (simp only: if_P [OF c2])
  next
    case mid
    obtain j where j: "i - k = Suc j" using mid(1) by (cases "i - k") auto
    then have j': "i - Suc k = j" by simp
    have c1: "Suc k \<le> i \<and> i < Suc k + (length rest + 1) div 2" using mid half by arith
    have c2: "k \<le> i \<and> i < k + (length (c # cs) + 1) div 2" using mid by simp
    have d: "drop (2 * (i - Suc k)) rest = drop (2 * (i - k)) (c # cs)"
      unfolding j j' rest_def by (rule drop_pair [symmetric])
    have "hexToBytes_loop (c # cs) k bytes ! i =
        ToUint8 (parseInt16 (take 2 (drop (2 * (i - Suc k)) rest)))"
      by (simp only: unf IH if_P [OF c1])
    then show ?thesis by (simp only: if_P [OF c2] d)
  next
    case out
    have c1: "\<not> (Suc k \<le> i \<and> i < Suc k + (length rest + 1) div 2)" using out half by arith
    have c2: "\<not> (k \<le> i \<and> i < k + (length (c # cs) + 1) div 2)" using out by arith
    have "hexToBytes_loop (c # cs) k bytes ! i = bytes[k := v] ! i"
      by (simp only: unf IH if_not_P [OF c1])
    also have "\<dots> = bytes ! i" using out(2) by simp
    finally show ?thesis by (simp only: if_not_P [OF c2])
  qed
qed

text \<open>
  Claim C4, as amended.  \<open>hexToBytes\<close> and \<open>targetToBits\<close> have no error path: for
  every string, well formed or not, \<open>hexToBytes\<close> returns \<open>length hex div 2\<close> bytes, the
  \<open>k\<close>-th being \<open>parseInt\<close> of the \<open>k\<close>-th two-character chunk stored as a byte (0 when
  the chunk does not parse), and a trailing odd character is dropped.
\<close>

theorem hexToBytes_never_signals:
  "length (hexToBytes hex) = length hex div 2 \<and>
   (\<forall>k < length hex div 2.
      hexToBytes hex ! k = ToUint8 (parseInt16 (take 2 (drop (2 * k) hex))))"
proof -
  have "\<And>k. k < length hex div 2 \<Longrightarrow> k < (length hex + 1) div 2" by arith
  then show ?thesis
    by (simp add: hexToBytes_def hexToBytes_loop_length hexToBytes_loop_nth)
qed

lemma parse_ab: "parseInt16 ''ab'' = Some 171"
  by (simp add: parseInt16_def isWhiteSpace_def isHexDigit_def hexDigitVal_def)

lemma parse_c: "parseInt16 ''c'' = Some 12"
  by (simp add: parseInt16_def isWhiteSpace_def isHexDigit_def hexDigitVal_def)

lemma parse_zz: "parseInt16 ''zz'' = None"
  by (simp add: parseInt16_def isWhiteSpace_def isHexDigit_def hexDigitVal_def)

text \<open>
  Claim C4, as stated, fails: an odd-length string is silently truncated, a non-hex chunk
  is silently stored as 0, and \<open>targetToBits\<close> returns a value for a non-hex string.
\<close>

theorem hexToBytes_malformed_counterexample:
  "hexToBytes ''abc'' = [0xab] \<and> hexToBytes ''zz'' = [0] \<and> targetToBits ''xyz'' = 0x02000000"
proof -
  have "parseInt16 ''0xyz00'' = None"
    by (simp add: parseInt16_def isWhiteSpace_def isHexDigit_def hexDigitVal_def)
  moreover have "padEnd 6 CHR ''0'' ''0xyz'' = ''0xyz00''"
    by (simp add: padEnd_def eval_nat_numeral)
  ultimately have "targetToBits ''xyz'' = 0x02000000"
    by (simp add: targetToBits_def Let_def ToInt32_opt_def js_and_def js_or_def js_shl_def
        ToInt32_def)
  then show ?thesis
    by (simp add: hexToBytes_def parse_ab parse_c parse_zz ToUint8_def)
qed

theorem hexToBytes_never_signals_witness:
  "(1::nat) < length ''0a1g2'' div 2 \<and> hexToBytes ''0a1g2'' ! 1 = 1"
proof -
  have "parseInt16 ''1g'' = Some 1"
    by (simp add: parseInt16_def isWhiteSpace_def isHexDigit_def hexDigitVal_def)
  then show ?thesis
    using hexToBytes_never_signals [of "''0a1g2''"] by (simp add: ToUint8_def)
qed

section \<open>Facts about the header serialization\<close>

lemma setUint32_le_length: "length (setUint32_le view off v) = length view"
  by (simp add: setUint32_le_def Let_def)

lemma setUint32_le_other:
  "k < off \<or> off + 4 \<le> k \<Longrightarrow> setUint32_le view off v ! k = view ! k"
  by (auto simp: setUint32_le_def Let_def)

lemma copy_loop_length:
  "length (fold (\<lambda>i view. setUint8 view (off + i) (f i)) [0..<n] view) = length view"
  by (induction n) (simp_all add: setUint8_def)

lemma copy_loop_nth:
  "k < length view \<Longrightarrow>
   fold (\<lambda>i view. setUint8 view (off + i) (f i)) [0..<n] view ! k =
     (if off \<le> k \<and> k < off + n then word_of_int (f (k - off)) else view ! k)"
proof (induction n)
  case 0
  show ?case by auto
next
  case (Suc n)
  let ?w = "fold (\<lambda>i view. setUint8 view (off + i) (f i)) [0..<n] view"
  have len: "k < length ?w" using Suc(2) by (simp add: copy_loop_length)
  have unf: "fold (\<lambda>i view. setUint8 view (off + i) (f i)) [0..<Suc n] view
      = ?w[off + n := word_of_int (f n)]"
    by (simp add: setUint8_def)
  show ?case
  proof (cases "k = off + n")
    case True
    then show ?thesis unfolding unf using len by simp
  next
    case False
    then have "?w[off + n := word_of_int (f n)] ! k = ?w ! k" by simp
    then show ?thesis unfolding unf using Suc False by auto
  qed
qed

lemma byteOrZero_word:
  "(word_of_int (byteOrZero bytes i) :: byte) = (bytes @ replicate 32 0) ! i" if "i < 32"
  using that by (simp add: byteOrZero_def nth_append)

lemma serializeBlockHeader_length: "length (serializeBlockHeader header) = 80"
  by (simp add: serializeBlockHeader_def Let_def setUint32_le_length copy_loop_length)

lemma serializeBlockHeader_prev:
  assumes "i < 32"
  shows "serializeBlockHeader header ! (4 + i)
     = (hexToBytes (previousBlockHash header) @ replicate 32 0) ! i"
  using assms
  by (simp add: serializeBlockHeader_def Let_def setUint32_le_length copy_loop_length
      setUint32_le_other copy_loop_nth byteOrZero_word)

lemma serializeBlockHeader_merkle:
  assumes "i < 32"
  shows "serializeBlockHeader header ! (36 + i)
     = (hexToBytes (merkleRoot header) @ replicate 32 0) ! i"
  using assms
  by (simp add: serializeBlockHeader_def Let_def setUint32_le_length copy_loop_length
      setUint32_le_other copy_loop_nth byteOrZero_word)

lemma window_eq:
  assumes len: "length S = 80" and off: "off + 32 \<le> 80"
    and nth: "\<And>i. i < 32 \<Longrightarrow> S ! (off + i) = (P @ replicate 32 (0::byte)) ! i"
  shows "take 32 (drop off S) = take 32 (P @ replicate 32 0)"
proof (rule nth_equalityI)
  show "length (take 32 (drop off S)) = length (take 32 (P @ replicate 32 0))"
    using len off by simp
next
  fix i
  assume "i < length (take 32 (drop off S))"
  then have i: "i < 32" by simp
  have "take 32 (drop off S) ! i = S ! (off + i)"
    using i len off by simp
  also have "\<dots> = (P @ replicate 32 0) ! i" by (rule nth [OF i])
  also have "\<dots> = take 32 (P @ replicate 32 0) ! i" by (rule nth_take [symmetric, OF i])
  finally show "take 32 (drop off S) ! i = take 32 (P @ replicate 32 0) ! i" .
qed

text \<open>
  Claim C3.  For every header, \<open>serializeBlockHeader\<close> returns exactly 80 bytes, whatever
  the length of the two hash strings: bytes 4 to 35 and 36 to 67 are the first 32 bytes of
  the decoded string followed by zeros (a short string is zero-padded, a long one is
  truncated).  The function has no failing branch.
\<close>

theorem serializeBlockHeader_80_bytes:
  "length (serializeBlockHeader header) = 80
   \<and> take 32 (drop 4 (serializeBlockHeader header))
       = take 32 (hexToBytes (previousBlockHash header) @ replicate 32 0)
   \<and> take 32 (drop 36 (serializeBlockHeader header))
       = take 32 (hexToBytes (merkleRoot header) @ replicate 32 0)"
proof (intro conjI)
  show "length (serializeBlockHeader header) = 80"
    by (rule serializeBlockHeader_length)
  show "take 32 (drop 4 (serializeBlockHeader header))
       = take 32 (hexToBytes (previousBlockHash header) @ replicate 32 0)"
    by (rule window_eq [OF serializeBlockHeader_length]) (simp_all add: serializeBlockHeader_prev)
  show "take 32 (drop 36 (serializeBlockHeader header))
       = take 32 (hexToBytes (merkleRoot header) @ replicate 32 0)"
    by (rule window_eq [OF serializeBlockHeader_length]) (simp_all add: serializeBlockHeader_merkle)
qed

section \<open>Facts about doubles\<close>

lemma bitLength_le: "n < 2 ^ k \<Longrightarrow> bitLength n \<le> k"
proof (induction n arbitrary: k rule: bitLength.induct)
  case (1 n)
  show ?case
  proof (cases "n = 0")
    case True
    then show ?thesis by (subst bitLength.simps) simp
  next
    case False
    then obtain j where k: "k = Suc j" using 1(2) by (cases k) simp_all
    have "n div 2 < 2 ^ j" using 1(2) k by simp
    from 1(1) [OF False this] show ?thesis using False k by (subst bitLength.simps) simp
  qed
qed

lemma roundToDouble_exact:
  assumes "\<bar>M\<bar> < 2 ^ 53" and "- 1074 \<le> e" and "e \<le> 900"
  shows "roundToDouble M e = Fin M e"
proof -
  have "nat \<bar>M\<bar> < 2 ^ 53" using assms(1) by (simp add: nat_less_iff)
  then have "bitLength (nat \<bar>M\<bar>) \<le> 53" by (rule bitLength_le)
  then have k: "nat (max 0 (max (int (bitLength (nat \<bar>M\<bar>)) - 53) (- 1074 - e))) = 0"
    using assms(2) by simp
  have q: "roundHalfEven M 0 = M" by (simp add: roundHalfEven_def Let_def)
  have k': "e + int 0 = e" by simp
  have no: "\<not> (0 \<le> e \<and> 2 ^ 1024 \<le> \<bar>M\<bar> * 2 ^ nat e)"
  proof
    assume a: "0 \<le> e \<and> 2 ^ 1024 \<le> \<bar>M\<bar> * 2 ^ nat e"
    then have "nat e \<le> 900" using assms(3) by simp
    then have "(2::int) ^ nat e \<le> 2 ^ 900" by (intro power_increasing) simp_all
    moreover have "\<bar>M\<bar> \<le> 2 ^ 53" using assms(1) by simp
    ultimately have "\<bar>M\<bar> * 2 ^ nat e \<le> 2 ^ 53 * 2 ^ 900"
      by (intro mult_mono) simp_all
    also have "\<dots> < (2::int) ^ 1024" by simp
    finally show False using a by simp
  qed
  show ?thesis unfolding roundToDouble_def Let_def k q k' if_not_P [OF no] ..
qed

lemma roundToDouble_zero: "roundToDouble 0 0 = Fin 0 0"
  using roundToDouble_exact [of 0 0] by simp

lemma bitLength_bounds: "0 < n \<Longrightarrow> 2 ^ (bitLength n - 1) \<le> n \<and> n < 2 ^ bitLength n"
proof (induction n rule: bitLength.induct)
  case (1 n)
  show ?case
  proof (cases "n div 2 = 0")
    case True
    with 1(2) have n: "n = 1" by (simp add: div_eq_0_iff)
    have "bitLength (Suc 0) = Suc (bitLength 0)" by (subst bitLength.simps) simp
    also have "bitLength 0 = 0" by (subst bitLength.simps) simp
    finally show ?thesis using n by simp
  next
    case False
    then have pos: "0 < n div 2" by simp
    from 1(1) [OF _ pos] 1(2)
    have ih: "2 ^ (bitLength (n div 2) - 1) \<le> n div 2" "n div 2 < 2 ^ bitLength (n div 2)"
      by simp_all
    have bl: "bitLength n = Suc (bitLength (n div 2))" using 1(2) by (subst bitLength.simps) simp
    have b1: "0 < bitLength (n div 2)" using pos by (subst bitLength.simps) simp
    then obtain j where j: "bitLength (n div 2) = Suc j" by (cases "bitLength (n div 2)") simp_all
    show ?thesis using ih unfolding bl j by simp linarith
  qed
qed



















lemma bitLength_eq:
  assumes "2 ^ j \<le> n" and "n < 2 ^ Suc j"
  shows "bitLength n = Suc j"
proof -
  have "0 < n" using assms(1) by (cases "n = 0") simp_all
  from bitLength_bounds [OF this] have "n < 2 ^ bitLength n" by simp
  with assms(1) have "(2::nat) ^ j < 2 ^ bitLength n" by (rule le_less_trans)
  then have "j < bitLength n" by (simp only: power_strict_increasing_iff)
  moreover have "bitLength n \<le> Suc j" using assms(2) by (rule bitLength_le)
  ultimately show ?thesis by simp
qed

section \<open>Facts about the search\<close>

lemma sameButNonce_refl: "sameButNonce h h"
  by (simp add: sameButNonce_def)

lemma sameButNonce_trans: "sameButNonce a b \<Longrightarrow> sameButNonce b c \<Longrightarrow> sameButNonce a c"
  by (simp add: sameButNonce_def)

lemma attempt_frame: "sameButNonce (st_header s) (st_header (snd (attempt f e tg s)))"
  by (simp add: attempt_def Let_def sameButNonce_def split: sum.splits)

lemma reportProgress_frame: "st_header (reportProgress e s) = st_header s"
  by (simp add: reportProgress_def Let_def)

lemma batchLoop_stop:
  "\<not> (i < batchSize \<and> st_nonce s < m \<and> \<not> shouldStopMining e (resumes s)) \<Longrightarrow>
   batchLoop f e tg m i s = (None, s)"
  by (subst batchLoop.simps) (rule if_not_P)

lemma batchLoop_step:
  "i < batchSize \<and> st_nonce s < m \<and> \<not> shouldStopMining e (resumes s) \<Longrightarrow>
   batchLoop f e tg m i s =
     (case attempt f e tg s of
        (Some out, s') \<Rightarrow> (Some out, s')
      | (None, s') \<Rightarrow> batchLoop f e tg m (Suc i) s')"
  by (subst batchLoop.simps) (rule if_P)

lemma searchLoop_stop:
  "\<not> (st_nonce s < m \<and> \<not> shouldStopMining e (resumes s)) \<Longrightarrow>
   searchLoop f e tg m s =
     (Returned \<lparr>success = False, res_nonce = st_nonce s, res_hash = st_hash s,
                res_stats = currentMiningStats s\<rparr>, s)"
  by (subst searchLoop.simps) (rule if_not_P)

lemma searchLoop_step:
  "st_nonce s < m \<and> \<not> shouldStopMining e (resumes s) \<Longrightarrow>
   searchLoop f e tg m s =
     (case batchLoop f e tg m 0 s of
        (Some out, s') \<Rightarrow> (out, s')
      | (None, s') \<Rightarrow> searchLoop f e tg m (reportProgress e s'))"
  by (subst searchLoop.simps) (rule if_P)

lemma batchLoop_frame: "sameButNonce (st_header s) (st_header (snd (batchLoop f e tg m i s)))"
proof (induction f e tg m i s rule: batchLoop.induct)
  case (1 f e tg m i s)
  show ?case
  proof (cases "i < batchSize \<and> st_nonce s < m \<and> \<not> shouldStopMining e (resumes s)")
    case False
    show ?thesis unfolding batchLoop_stop [OF False] by (simp add: sameButNonce_refl)
  next
    case True
    obtain o1 s1 where a: "attempt f e tg s = (o1, s1)" by (cases "attempt f e tg s")
    have f1: "sameButNonce (st_header s) (st_header s1)"
      using attempt_frame [of s f e tg] a by simp
    show ?thesis
    proof (cases o1)
      case None
      have "sameButNonce (st_header s1) (st_header (snd (batchLoop f e tg m (Suc i) s1)))"
        using 1 [OF True a [symmetric] None] .
      with f1 have "sameButNonce (st_header s) (st_header (snd (batchLoop f e tg m (Suc i) s1)))"
        by (rule sameButNonce_trans)
      then show ?thesis using a None by (simp add: batchLoop_step [OF True])
    next
      case (Some out)
      then show ?thesis using a f1 by (simp add: batchLoop_step [OF True])
    qed
  qed
qed

lemma searchLoop_frame: "sameButNonce (st_header s) (st_header (snd (searchLoop f e tg m s)))"
proof (induction f e tg m s rule: searchLoop.induct)
  case (1 f e tg m s)
  show ?case
  proof (cases "st_nonce s < m \<and> \<not> shouldStopMining e (resumes s)")
    case False
    show ?thesis unfolding searchLoop_stop [OF False] by (simp add: sameButNonce_refl)
  next
    case True
    obtain o1 s1 where b: "batchLoop f e tg m 0 s = (o1, s1)" by (cases "batchLoop f e tg m 0 s")
    have f1: "sameButNonce (st_header s) (st_header s1)"
      using batchLoop_frame [of s f e tg m 0] b by simp
    show ?thesis
    proof (cases o1)
      case None
      have "sameButNonce (st_header (reportProgress e s1))
          (st_header (snd (searchLoop f e tg m (reportProgress e s1))))"
        using 1 [OF True b [symmetric] None] .
      then have "sameButNonce (st_header s1)
          (st_header (snd (searchLoop f e tg m (reportProgress e s1))))"
        by (simp add: reportProgress_frame)
      with f1 have "sameButNonce (st_header s)
          (st_header (snd (searchLoop f e tg m (reportProgress e s1))))"
        by (rule sameButNonce_trans)
      then show ?thesis using b None by (simp add: searchLoop_step [OF True])
    next
      case (Some out)
      then show ?thesis using b f1 by (simp add: searchLoop_step [OF True])
    qed
  qed
qed

text \<open>
  Claim C9.  The search writes no field of the header but \<open>nonce\<close>: \<open>version\<close>,
  \<open>previousBlockHash\<close>, \<open>merkleRoot\<close>, \<open>timestamp\<close> and \<open>bits\<close> are the caller's after
  a whole run of \<open>mineBlock\<close>, whatever it returns or throws, and also after every single
  attempt, every batch and every run of the outer loop from any state.
\<close>

theorem mineBlock_changes_only_nonce:
  "sameButNonce header (st_header (snd (mineBlock sha256Bytes env header maxAttempts)))
   \<and> sameButNonce (st_header s) (st_header (snd (attempt sha256Bytes env target s)))
   \<and> sameButNonce (st_header s) (st_header (snd (batchLoop sha256Bytes env target maxAttempts i s)))
   \<and> sameButNonce (st_header s) (st_header (snd (searchLoop sha256Bytes env target maxAttempts s)))"
proof -
  have "sameButNonce header (st_header (snd (mineBlock sha256Bytes env header maxAttempts)))"
    unfolding mineBlock_def Let_def
    using searchLoop_frame [of "\<lparr>st_header = header, st_nonce = 0, st_hash = [],
      currentMiningStats = \<lparr>hashesComputed = 0, startTime = performance_now env 0, hashRate = Fin 0 0,
      elapsedTime = Fin 0 0\<rparr>, lastUpdateTime = performance_now env 1, clockReads = 2, resumes = 0,
      onProgress = []\<rparr>" sha256Bytes env "bitsToTarget (bits header)" maxAttempts]
    by simp
  then show ?thesis
    by (simp add: attempt_frame batchLoop_frame searchLoop_frame)
qed






lemma sameButNonce_update: "sameButNonce h h' \<Longrightarrow> h'\<lparr>nonce := x\<rparr> = h\<lparr>nonce := x\<rparr>"
  by (cases h, cases h') (simp add: sameButNonce_def)

lemma attempt_digest:
  assumes "sameButNonce header (st_header s)"
  shows "bytesToHex (reverseBytes (doubleSha256Bytes f
      (serializeBlockHeader ((st_header s)\<lparr>nonce := st_nonce s\<rparr>)))) = digestOf f header (st_nonce s)"
  by (simp add: digestOf_def sameButNonce_update [OF assms])










lemma attempt_meets:
  assumes "searchInv header n s"
    and "hashMeetsTarget (digestOf f header (st_nonce s)) tg = Inr True"
  shows "\<exists>res s'. attempt f e tg s = (Some (Returned res), s') \<and> foundAt (st_nonce s) res"
proof -
  have d: "bytesToHex (reverseBytes (doubleSha256Bytes f
      (serializeBlockHeader ((st_header s)\<lparr>nonce := st_nonce s\<rparr>)))) = digestOf f header (st_nonce s)"
    using assms(1) by (simp add: searchInv_def attempt_digest)
  show ?thesis
    unfolding attempt_def Let_def d assms(2)
    using assms(1) by (simp add: searchInv_def foundAt_def)
qed

lemma attempt_misses:
  assumes "searchInv header n s" and "st_nonce s < n"
    and "hashMeetsTarget (digestOf f header (st_nonce s)) tg = Inr False"
  shows "\<exists>s'. attempt f e tg s = (None, s') \<and> searchInv header n s'
     \<and> st_nonce s' = st_nonce s + 1"
proof -
  have d: "bytesToHex (reverseBytes (doubleSha256Bytes f
      (serializeBlockHeader ((st_header s)\<lparr>nonce := st_nonce s\<rparr>)))) = digestOf f header (st_nonce s)"
    using assms(1) by (simp add: searchInv_def attempt_digest)
  show ?thesis
    unfolding attempt_def Let_def d assms(3)
    using assms(1,2) by (simp add: searchInv_def sameButNonce_def)
qed

lemma batchLoop_finds:
  assumes meets: "hashMeetsTarget (digestOf f header n) tg = Inr True"
    and misses: "\<forall>k. 0 \<le> k \<and> k < n \<longrightarrow> hashMeetsTarget (digestOf f header k) tg = Inr False"
    and run: "\<forall>k. \<not> shouldStopMining e k" and bound: "n < m"
  shows "searchInv header n s \<Longrightarrow>
     (\<exists>res s'. batchLoop f e tg m i s = (Some (Returned res), s') \<and> foundAt n res)
     \<or> (\<exists>s'. batchLoop f e tg m i s = (None, s') \<and> searchInv header n s')"
  using meets misses run bound
proof (induction f e tg m i s rule: batchLoop.induct)
  case (1 f e tg m i s)
  note inv = 1(2) and meets = 1(3) and misses = 1(4) and run = 1(5) and bound = 1(6)
  have nonce: "0 \<le> st_nonce s" "st_nonce s \<le> n" using inv by (simp_all add: searchInv_def)
  show ?case
  proof (cases "i < batchSize")
    case False
    then have c: "\<not> (i < batchSize \<and> st_nonce s < m \<and> \<not> shouldStopMining e (resumes s))"
      by simp
    show ?thesis unfolding batchLoop_stop [OF c] using inv False by simp
  next
    case True
    then have c: "i < batchSize \<and> st_nonce s < m \<and> \<not> shouldStopMining e (resumes s)"
      using nonce bound run by simp
    show ?thesis
    proof (cases "st_nonce s = n")
      case eq: True
      from attempt_meets [OF inv meets [folded eq], of e]
      obtain res s' where "attempt f e tg s = (Some (Returned res), s')" "foundAt n res"
        using eq by auto
      then show ?thesis by (simp add: batchLoop_step [OF c])
    next
      case False
      then have lt: "st_nonce s < n" using nonce by simp
      with misses nonce have "hashMeetsTarget (digestOf f header (st_nonce s)) tg = Inr False"
        by simp
      from attempt_misses [OF inv lt this, of e]
      obtain s1 where a: "attempt f e tg s = (None, s1)" and inv1: "searchInv header n s1"
        and n1: "st_nonce s1 = st_nonce s + 1" by auto
      from 1(1) [OF c a [symmetric] refl inv1 meets misses run bound]
      show ?thesis by (simp add: batchLoop_step [OF c] a)
    qed
  qed
qed

lemma reportProgress_inv: "searchInv header n s \<Longrightarrow> searchInv header n (reportProgress e s)"
  by (simp add: searchInv_def reportProgress_def Let_def)

lemma searchLoop_finds:
  assumes meets: "hashMeetsTarget (digestOf f header n) tg = Inr True"
    and misses: "\<forall>k. 0 \<le> k \<and> k < n \<longrightarrow> hashMeetsTarget (digestOf f header k) tg = Inr False"
    and run: "\<forall>k. \<not> shouldStopMining e k" and bound: "n < m"
  shows "searchInv header n s \<Longrightarrow>
     \<exists>res s'. searchLoop f e tg m s = (Returned res, s') \<and> foundAt n res"
  using meets misses run bound
proof (induction f e tg m s rule: searchLoop.induct)
  case (1 f e tg m s)
  note inv = 1(2) and meets = 1(3) and misses = 1(4) and run = 1(5) and bound = 1(6)
  have c: "st_nonce s < m \<and> \<not> shouldStopMining e (resumes s)"
    using inv bound run by (simp add: searchInv_def)
  from batchLoop_finds [OF meets misses run bound inv, of 0]
  consider (found) res s' where "batchLoop f e tg m 0 s = (Some (Returned res), s')" "foundAt n res"
    | (more) s1 where "batchLoop f e tg m 0 s = (None, s1)" "searchInv header n s1"
    by auto
  then show ?case
  proof cases
    case found
    then show ?thesis by (simp add: searchLoop_step [OF c])
  next
    case more
    from 1(1) [OF c more(1) [symmetric] refl reportProgress_inv [OF more(2)] meets misses run bound]
    show ?thesis by (simp add: searchLoop_step [OF c] more(1))
  qed
qed

lemma mineBlock_found:
  assumes "0 \<le> n" and "n < maxAttempts"
    and "hashMeetsTarget (digestOf sha256Bytes header n) (bitsToTarget (bits header)) = Inr True"
    and "\<forall>k. 0 \<le> k \<and> k < n \<longrightarrow>
           hashMeetsTarget (digestOf sha256Bytes header k) (bitsToTarget (bits header)) = Inr False"
    and "\<forall>k. \<not> shouldStopMining env k"
  shows "\<exists>res s'. mineBlock sha256Bytes env header maxAttempts = (Returned res, s') \<and> foundAt n res"
  unfolding mineBlock_def Let_def
  by (rule searchLoop_finds [OF assms(3,4,5,2)])
    (simp add: searchInv_def sameButNonce_refl assms(1))

text \<open>
  Claim C7, as amended.  If \<open>n\<close> is the smallest nonce in \<open>[0, maxAttempts)\<close> whose digest
  meets the target, and \<open>shouldStopMining\<close> is not set while the search runs, then
  \<open>mineBlock\<close> returns \<open>success = true\<close> with \<open>nonce = n\<close> and
  \<open>stats.hashesComputed = n + 1\<close>.
\<close>

theorem mineBlock_finds_smallest_nonce:
  assumes "0 \<le> n" and "n < maxAttempts"
    and "hashMeetsTarget (digestOf sha256Bytes header n) (bitsToTarget (bits header)) = Inr True"
    and "\<forall>k. 0 \<le> k \<and> k < n \<longrightarrow>
           hashMeetsTarget (digestOf sha256Bytes header k) (bitsToTarget (bits header)) = Inr False"
    and "\<forall>k. \<not> shouldStopMining env k"
  shows "\<exists>res s'. mineBlock sha256Bytes env header maxAttempts = (Returned res, s')
           \<and> success res \<and> res_nonce res = n \<and> hashesComputed (res_stats res) = n + 1"
  using mineBlock_found [OF assms] by (simp add: foundAt_def)

lemma replicate_numeral: "replicate (numeral k) x = x # replicate (pred_numeral k) x"
  by (simp add: numeral_eq_Suc)

lemma digits16_small: "n < 16 \<Longrightarrow> digits16 n = [hexChar n]"
  by (subst digits16.simps) simp

lemma reverseBytes_rev: "reverseBytes bytes = rev bytes"
  by (rule nth_equalityI) (simp_all add: reverseBytes_def rev_nth)

lemma serializeBlockHeader_nonce_byte:
  "serializeBlockHeader header ! 76 = word_of_int (take_bit 32 (nonce header))"
  by (simp add: serializeBlockHeader_def Let_def setUint32_le_def copy_loop_length)

lemma toyDigest_header:
  "doubleSha256Bytes toyDigest (serializeBlockHeader header)
     = replicate 31 0 @ [1 - word_of_int (take_bit 32 (nonce header))]"
  by (simp add: doubleSha256Bytes_def toyDigest_def serializeBlockHeader_length
      serializeBlockHeader_nonce_byte)

lemma target_example:
  "bitsToTarget 0x1d00ffff = replicate 8 CHR ''0'' @ ''ffff'' @ replicate 52 CHR ''0''"
  by (simp add: bitsToTarget_def Let_def js_and_def js_sar_def ToInt32_def padStart_def
      toString16_def digits16.simps [of 65535] digits16.simps [of 4095] digits16.simps [of 255]
      digits16_small hexChar_def replicate_numeral)

lemma digest0: "digestOf toyDigest exampleHeader 0 = ''01'' @ replicate 62 CHR ''0''"
  by (simp add: digestOf_def toyDigest_header reverseBytes_rev bytesToHex_def padStart_def
      toString16_def digits16_small hexChar_def exampleHeader_def replicate_numeral)

lemma digest1: "digestOf toyDigest exampleHeader 1 = replicate 64 CHR ''0''"
  by (simp add: digestOf_def toyDigest_header reverseBytes_rev bytesToHex_def padStart_def
      toString16_def digits16_small hexChar_def exampleHeader_def replicate_numeral)

lemma misses0:
  "hashMeetsTarget (digestOf toyDigest exampleHeader 0) (bitsToTarget (bits exampleHeader)) = Inr False"
  unfolding digest0
  by (simp add: exampleHeader_def target_example hashMeetsTarget_def BigInt_hex_def
      isWhiteSpace_def isHexDigit_def hexDigitVal_def replicate_numeral)

lemma meets1:
  "hashMeetsTarget (digestOf toyDigest exampleHeader 1) (bitsToTarget (bits exampleHeader)) = Inr True"
  unfolding digest1
  by (simp add: exampleHeader_def target_example hashMeetsTarget_def BigInt_hex_def
      isWhiteSpace_def isHexDigit_def hexDigitVal_def replicate_numeral)

lemma toy_misses_before_1:
  "\<forall>k. 0 \<le> k \<and> k < 1 \<longrightarrow>
     hashMeetsTarget (digestOf toyDigest exampleHeader k) (bitsToTarget (bits exampleHeader)) = Inr False"
proof (intro allI impI)
  fix k :: int
  assume "0 \<le> k \<and> k < 1"
  then have "k = 0" by simp
  then show "hashMeetsTarget (digestOf toyDigest exampleHeader k) (bitsToTarget (bits exampleHeader)) = Inr False"
    by (simp add: misses0)
qed

lemma quietEnv_runs: "\<forall>k. \<not> shouldStopMining quietEnv k"
  by (simp add: quietEnv_def neverStopped_def)

text \<open>
  With the stand-in digest the nonce 0 misses the target of \<open>0x1d00ffff\<close> and the nonce 1
  meets it; the search finds 1 after two hashes.
\<close>

theorem mineBlock_finds_smallest_nonce_witness:
  "\<exists>res s'. mineBlock toyDigest quietEnv exampleHeader 5 = (Returned res, s')
      \<and> success res \<and> res_nonce res = 1 \<and> hashesComputed (res_stats res) = 2"
  using mineBlock_finds_smallest_nonce [of 1 5 toyDigest exampleHeader quietEnv,
      OF _ _ meets1 toy_misses_before_1 quietEnv_runs]
  by simp

lemma attempt0:
  "bytesToHex (reverseBytes (doubleSha256Bytes toyDigest
      (serializeBlockHeader (exampleHeader\<lparr>nonce := 0\<rparr>)))) = ''01'' @ replicate 62 CHR ''0''"
  using digest0 by (simp add: digestOf_def)

lemma toy_single_attempt_run:
  assumes clock: "performance_now env = frozenClock"
    and go: "\<not> shouldStopMining env 0"
    and halt: "m = 1 \<or> shouldStopMining env 1" and m: "1 \<le> m"
  shows "fst (mineBlock toyDigest env exampleHeader m)
     = Returned \<lparr>success = False, res_nonce = 1, res_hash = ''01'' @ replicate 62 CHR ''0'',
                 res_stats = \<lparr>hashesComputed = 1, startTime = Fin 0 0, hashRate = Fin 0 0, elapsedTime = Fin 0 0\<rparr>\<rparr>
   \<and> onProgress (snd (mineBlock toyDigest env exampleHeader m)) = []"
proof -
  define s0 where "s0 = \<lparr>st_header = exampleHeader, st_nonce = 0, st_hash = [],
     currentMiningStats = \<lparr>hashesComputed = 0, startTime = Fin 0 0, hashRate = Fin 0 0, elapsedTime = Fin 0 0\<rparr>,
     lastUpdateTime = Fin 0 0, clockReads = 2, resumes = 0, onProgress = []\<rparr>"
  define s1 where "s1 = s0\<lparr>st_header := exampleHeader\<lparr>nonce := 0\<rparr>,
     st_hash := ''01'' @ replicate 62 CHR ''0'',
     currentMiningStats := \<lparr>hashesComputed = 1, startTime = Fin 0 0, hashRate = Fin 0 0, elapsedTime = Fin 0 0\<rparr>,
     clockReads := 3, resumes := 1, st_nonce := 1\<rparr>"
  define tg where "tg = bitsToTarget (bits exampleHeader)"
  have m0: "hashMeetsTarget (''01'' @ replicate 62 CHR ''0'') tg = Inr False"
    using misses0 unfolding digest0 tg_def .
  have a: "attempt toyDigest env tg s0 = (None, s1)"
    unfolding attempt_def Let_def
    using m0 by (simp add: s0_def s1_def attempt0 clock frozenClock_def roundToDouble_zero)
  have c0: "0 < batchSize \<and> st_nonce s0 < m \<and> \<not> shouldStopMining env (resumes s0)"
    using go m by (simp add: batchSize_def s0_def)
  have c1: "\<not> (Suc 0 < batchSize \<and> st_nonce s1 < m \<and> \<not> shouldStopMining env (resumes s1))"
    using halt by (auto simp: s1_def s0_def)
  have b: "batchLoop toyDigest env tg m 0 s0 = (None, s1)"
    by (simp add: batchLoop_step [OF c0] a batchLoop_stop [OF c1])
  have d0: "st_nonce s0 < m \<and> \<not> shouldStopMining env (resumes s0)"
    using c0 by simp
  have r: "reportProgress env s1 = s1\<lparr>clockReads := 4\<rparr>"
    by (simp add: reportProgress_def Let_def s1_def s0_def clock frozenClock_def roundToDouble_zero)
  have d1: "\<not> (st_nonce (s1\<lparr>clockReads := 4\<rparr>) < m
      \<and> \<not> shouldStopMining env (resumes (s1\<lparr>clockReads := 4\<rparr>)))"
    using halt by (auto simp: s1_def s0_def)
  have "searchLoop toyDigest env tg m s0 =
      (Returned \<lparr>success = False, res_nonce = 1, res_hash = ''01'' @ replicate 62 CHR ''0'',
         res_stats = \<lparr>hashesComputed = 1, startTime = Fin 0 0, hashRate = Fin 0 0, elapsedTime = Fin 0 0\<rparr>\<rparr>,
       s1\<lparr>clockReads := 4\<rparr>)"
    by (simp add: searchLoop_step [OF d0] b r searchLoop_stop [OF d1]) (simp add: s1_def s0_def)
  moreover have "mineBlock toyDigest env exampleHeader m = searchLoop toyDigest env tg m s0"
    by (simp add: mineBlock_def Let_def s0_def tg_def clock frozenClock_def)
  ultimately show ?thesis by (simp add: s1_def s0_def)
qed

text \<open>
  Claim C7, as stated, fails when \<open>shouldStopMining\<close> is set during the search: the
  nonce 1 is the smallest one that meets the target and lies below \<open>maxAttempts = 5\<close>,
  the flag is set while the first digest is computed, and the search returns
  \<open>success = false\<close> after one hash.
\<close>

theorem mineBlock_cancelled_counterexample:
  "hashMeetsTarget (digestOf toyDigest exampleHeader 0) (bitsToTarget (bits exampleHeader)) = Inr False
   \<and> hashMeetsTarget (digestOf toyDigest exampleHeader 1) (bitsToTarget (bits exampleHeader)) = Inr True
   \<and> fst (mineBlock toyDigest cancellingEnv exampleHeader 5)
       = Returned \<lparr>success = False, res_nonce = 1, res_hash = ''01'' @ replicate 62 CHR ''0'',
                   res_stats = \<lparr>hashesComputed = 1, startTime = Fin 0 0, hashRate = Fin 0 0, elapsedTime = Fin 0 0\<rparr>\<rparr>"
  using misses0 meets1 toy_single_attempt_run [of cancellingEnv 5]
  by (simp add: cancellingEnv_def stoppedAfterFirst_def)






text \<open>
  The difference of two readings is rounded as the code rounds it.  With the last report
  at the double nearest to 0.1 and a reading at the double nearest to 50.1, the exact
  difference is above 50, the double difference is exactly 50, and no report is due.
\<close>

lemma moreThan50_is_rounded:
  "\<not> moreThan50 (Fin 7050948166601933 (- 47)) (Fin 3602879701896397 (- 55))
   \<and> finValue 7050948166601933 (- 47) - finValue 3602879701896397 (- 55) > 50"
proof -
  have "bitLength 1801439850948198451 = Suc 60" by (rule bitLength_eq) simp_all
  then have "roundToDouble 1801439850948198451 (- 55) = Fin 7036874417766400 (- 47)"
    by (simp add: roundToDouble_def Let_def roundHalfEven_def)
  then have "\<not> moreThan50 (Fin 7050948166601933 (- 47)) (Fin 3602879701896397 (- 55))"
    by (simp add: moreThan50_def)
  moreover have "finValue 7050948166601933 (- 47) - finValue 3602879701896397 (- 55) > 50"
    by (simp add: finValue_def)
  ultimately show ?thesis by simp
qed

section \<open>The round trip through the compact form\<close>

lemma and_low_bits: "(x::int) AND (2 ^ n - 1) = x mod 2 ^ n"
proof -
  have "x AND mask n = take_bit n x" by (simp add: take_bit_eq_mask)
  then show ?thesis by (simp add: mask_eq_exp_minus_1 take_bit_eq_mod)
qed

lemma compact_parts:
  assumes e: "0 \<le> e" "e < 128" and c: "0 \<le> c" "c < 0x800000"
  shows "ToInt32 (e * 0x1000000 + c) = e * 0x1000000 + c"
    and "js_sar (e * 0x1000000 + c) 24 = e"
    and "js_and (e * 0x1000000 + c) 0x007fffff = c"
    and "js_and (e * 0x1000000 + c) 0x00800000 = 0"
proof -
  have b: "0 \<le> e * 0x1000000 + c" "e * 0x1000000 + c < 2 ^ 31" using e c by simp_all
  show t: "ToInt32 (e * 0x1000000 + c) = e * 0x1000000 + c"
    by (rule ToInt32_small [OF b])
  have "(e * 0x1000000 + c) div 0x1000000 = e"
    using c by simp
  then show "js_sar (e * 0x1000000 + c) 24 = e"
    unfolding js_sar_def t by (simp add: drop_bit_eq_div)
  have split: "e * 0x1000000 + c = c + (2 * e) * 0x800000" by simp
  have md: "(e * 0x1000000 + c) mod 0x800000 = c mod 0x800000"
    unfolding split by (simp only: mod_mult_self1)
  have "ToInt32 0x007fffff = 2 ^ 23 - 1" by (simp add: ToInt32_def)
  then have "js_and (e * 0x1000000 + c) 0x007fffff = (e * 0x1000000 + c) mod 2 ^ 23"
    unfolding js_and_def t by (simp only: and_low_bits)
  then show "js_and (e * 0x1000000 + c) 0x007fffff = c"
    using md c by simp
  have d: "(e * 0x1000000 + c) div 0x800000 = 2 * e + c div 0x800000"
    unfolding split by (simp only: div_mult_self1)
  have "bit (e * 0x1000000 + c) 23 \<longleftrightarrow> odd ((e * 0x1000000 + c) div 2 ^ 23)"
    by (rule bit_iff_odd)
  then have bit: "\<not> bit (e * 0x1000000 + c) 23"
    using d c by simp
  have p: "ToInt32 0x00800000 = 2 ^ 23" by (simp add: ToInt32_def)
  have "((e * 0x1000000 + c) AND 2 ^ 23 = 0) = (\<not> bit (e * 0x1000000 + c) 23)"
    by (rule and_exp_eq_0_iff_not_bit)
  with bit have "(e * 0x1000000 + c) AND 2 ^ 23 = 0" by simp
  then show "js_and (e * 0x1000000 + c) 0x00800000 = 0"
    unfolding js_and_def t p .
qed

lemma exponentOf_parts:
  assumes e: "0 \<le> e" "e < 128" and c: "0 \<le> c" "c < 0x800000"
  shows "exponentOf (e * 0x1000000 + c) = e"
proof -
  have "ToInt32 0xff = 2 ^ 8 - 1" by (simp add: ToInt32_def)
  moreover have "ToInt32 e = e" using e by (intro ToInt32_small) simp_all
  ultimately have "js_and e 0xff = e mod 2 ^ 8"
    unfolding js_and_def by (simp only: and_low_bits)
  then show ?thesis
    unfolding exponentOf_def compact_parts(2) [OF assms] using e by simp
qed

lemma compact_join:
  assumes e: "0 \<le> e" "e < 128" and c: "0 \<le> c" "c < 0x1000000"
  shows "js_or (js_shl e 24) c = e * 0x1000000 + c"
proof -
  have te: "ToInt32 e = e" using e by (intro ToInt32_small) simp_all
  have tc: "ToInt32 c = c" using c by (intro ToInt32_small) simp_all
  have sh: "js_shl e 24 = e * 0x1000000"
    unfolding js_shl_def te using e by (simp add: push_bit_eq_mult ToInt32_small)
  have tsh: "ToInt32 (e * 0x1000000) = e * 0x1000000"
    using e by (intro ToInt32_small) simp_all
  have "push_bit 24 e AND c = 0"
  proof (rule bit_eqI)
    fix n
    have "bit c n \<Longrightarrow> n < 24"
    proof -
      assume "bit c n"
      have "take_bit 24 c = c" using c by (simp add: take_bit_int_eq_self)
      with \<open>bit c n\<close> have "bit (take_bit 24 c) n" by simp
      then show "n < 24" by (simp add: bit_take_bit_iff)
    qed
    then show "bit (push_bit 24 e AND c) n = bit (0::int) n"
      by (auto simp: bit_and_iff bit_push_bit_iff)
  qed
  then have "push_bit 24 e + c = push_bit 24 e OR c" by (rule disjunctive_add_eq_or)
  then have "e * 0x1000000 OR c = e * 0x1000000 + c" by (simp add: push_bit_eq_mult)
  then show ?thesis unfolding js_or_def sh tsh tc .
qed

lemma hexChar_facts:
  assumes "d < 16"
  shows "hexDigitVal (hexChar d) = Some d"
    and "isHexDigit (hexChar d)"
    and "\<not> isWhiteSpace (hexChar d)"
    and "hexChar d \<noteq> CHR ''-''" and "hexChar d \<noteq> CHR ''+''"
    and "hexChar d \<noteq> CHR ''x''" and "hexChar d \<noteq> CHR ''X''"
    and "hexChar d = CHR ''0'' \<longleftrightarrow> d = 0"
  using hexChar_cases [OF assms]
  by (elim disjE; simp add: hexChar_def hexDigitVal_def isHexDigit_def isWhiteSpace_def)+

lemma padStart_digits_step:
  assumes "length (digits16 (n div 16)) \<le> k" and "0 < k" and "k' = Suc k"
  shows "padStart k' CHR ''0'' (digits16 n)
     = padStart k CHR ''0'' (digits16 (n div 16)) @ [hexChar (n mod 16)]"
proof (cases "n < 16")
  case True
  then have z: "n div 16 = 0" by simp
  have "replicate (k - 1) CHR ''0'' @ [CHR ''0''] = replicate k CHR ''0''"
    using assms(2) by (cases k) (simp_all add: replicate_append_same)
  then show ?thesis using True
    by (simp add: z digits16_small padStart_def hexChar_def assms(3))
next
  case False
  then have "digits16 n = digits16 (n div 16) @ [hexChar (n mod 16)]"
    by (subst digits16.simps) simp
  then show ?thesis using assms by (simp add: padStart_def Suc_diff_le)
qed

lemma hex6:
  assumes "n < 16 ^ 6"
  shows "padStart 6 CHR ''0'' (digits16 n) =
    [hexChar (n div 16 ^ 5), hexChar (n div 16 ^ 4 mod 16), hexChar (n div 16 ^ 3 mod 16),
     hexChar (n div 16 ^ 2 mod 16), hexChar (n div 16 mod 16), hexChar (n mod 16)]"
proof -
  have l: "m < 16 ^ k \<Longrightarrow> 0 < k \<Longrightarrow> length (digits16 m) \<le> k" for m k
    by (rule digits16_length)
  define n1 where "n1 = n div 16"
  define n2 where "n2 = n1 div 16"
  define n3 where "n3 = n2 div 16"
  define n4 where "n4 = n3 div 16"
  define n5 where "n5 = n4 div 16"
  have d1: "n1 < 16 ^ 5" using assms by (simp add: n1_def)
  then have d2: "n2 < 16 ^ 4" by (simp add: n2_def)
  then have d3: "n3 < 16 ^ 3" by (simp add: n3_def)
  then have d4: "n4 < 16 ^ 2" by (simp add: n4_def)
  then have d5: "n5 < 16" by (simp add: n5_def)
  have s6: "padStart 6 CHR ''0'' (digits16 n) = padStart 5 CHR ''0'' (digits16 n1) @ [hexChar (n mod 16)]"
    unfolding n1_def by (rule padStart_digits_step) (simp_all add: l [OF d1 [unfolded n1_def]])
  have s5: "padStart 5 CHR ''0'' (digits16 n1) = padStart 4 CHR ''0'' (digits16 n2) @ [hexChar (n1 mod 16)]"
    unfolding n2_def by (rule padStart_digits_step) (simp_all add: l [OF d2 [unfolded n2_def]])
  have s4: "padStart 4 CHR ''0'' (digits16 n2) = padStart 3 CHR ''0'' (digits16 n3) @ [hexChar (n2 mod 16)]"
    unfolding n3_def by (rule padStart_digits_step) (simp_all add: l [OF d3 [unfolded n3_def]])
  have s3: "padStart 3 CHR ''0'' (digits16 n3) = padStart 2 CHR ''0'' (digits16 n4) @ [hexChar (n3 mod 16)]"
    unfolding n4_def by (rule padStart_digits_step) (simp_all add: l [OF d4 [unfolded n4_def]])
  have s2: "padStart 2 CHR ''0'' (digits16 n4) = padStart 1 CHR ''0'' (digits16 n5) @ [hexChar (n4 mod 16)]"
    unfolding n5_def by (rule padStart_digits_step)
      (simp_all add: digits16_small [OF d5 [unfolded n5_def]])
  have s1: "padStart 1 CHR ''0'' (digits16 n5) = [hexChar n5]"
    by (simp add: digits16_small [OF d5] padStart_def)
  have e1: "n1 = n div 16" by (simp add: n1_def)
  have e2: "n2 = n div 16 ^ 2" by (simp add: n2_def n1_def div_mult2_eq)
  have e3: "n3 = n div 16 ^ 3" by (simp add: n3_def e2 div_mult2_eq [symmetric])
  have e4: "n4 = n div 16 ^ 4" by (simp add: n4_def e3 div_mult2_eq [symmetric])
  have e5: "n5 = n div 16 ^ 5" by (simp add: n5_def e4 div_mult2_eq [symmetric])
  show ?thesis unfolding s6 s5 s4 s3 s2 s1 unfolding e1 e2 e3 e4 e5 by simp
qed

lemma parse6:
  assumes "d5 < 16" "d4 < 16" "d3 < 16" "d2 < 16" "d1 < 16" "d0 < 16"
  shows "parseInt16 [hexChar d5, hexChar d4, hexChar d3, hexChar d2, hexChar d1, hexChar d0]
    = Some (int (d5 * 16 ^ 5 + d4 * 16 ^ 4 + d3 * 16 ^ 3 + d2 * 16 ^ 2 + d1 * 16 + d0))"
  using assms by (simp add: parseInt16_def Let_def hexChar_facts)

lemma dropWhile_zeros:
  "dropWhile (\<lambda>c. c = CHR ''0'') (replicate p CHR ''0'' @ xs) = dropWhile (\<lambda>c. c = CHR ''0'') xs"
  by (induction p) simp_all

lemma even_length_zeros: "length (replicate (2 * z) c) mod 2 = 0"
  by simp

lemma targetToBits_normal:
  assumes d: "d5 < 16" "d4 < 16" "d3 < 16" "d2 < 16" "d1 < 16" "d0 < 16"
    and lead: "d5 \<noteq> 0 \<or> d4 \<noteq> 0"
    and v: "v = int (d5 * 16 ^ 5 + d4 * 16 ^ 4 + d3 * 16 ^ 3 + d2 * 16 ^ 2 + d1 * 16 + d0)"
    and small: "v < 0x800000" and z: "int z < 125"
  shows "targetToBits (replicate p CHR ''0''
           @ [hexChar d5, hexChar d4, hexChar d3, hexChar d2, hexChar d1, hexChar d0]
           @ replicate (2 * z) CHR ''0'')
         = (3 + int z) * 0x1000000 + v"
proof -
  let ?H = "[hexChar d5, hexChar d4, hexChar d3, hexChar d2, hexChar d1, hexChar d0]"
  let ?Z = "replicate (2 * z) CHR ''0''"
  define stripped0 where "stripped0 = dropWhile (\<lambda>c. c = CHR ''0'') (replicate p CHR ''0'' @ ?H @ ?Z)"
  define stripped where "stripped = (if stripped0 = [] then ''0'' else stripped0)"
  define padded where "padded = (if length stripped mod 2 \<noteq> 0 then CHR ''0'' # stripped else stripped)"
  have v0: "0 \<le> v" using v by simp
  have padded: "padded = ?H @ ?Z"
  proof (cases "d5 = 0")
    case False
    then have "stripped0 = ?H @ ?Z"
      unfolding stripped0_def dropWhile_zeros using d by (simp add: hexChar_facts)
    then show ?thesis by (simp add: padded_def stripped_def)
  next
    case True
    then have "d4 \<noteq> 0" using lead by simp
    then have "stripped0 = [hexChar d4, hexChar d3, hexChar d2, hexChar d1, hexChar d0] @ ?Z"
      unfolding stripped0_def dropWhile_zeros using d True by (simp add: hexChar_facts)
    then show ?thesis using True by (simp add: padded_def stripped_def hexChar_def)
  qed
  have parse: "parseInt16 (padEnd 6 CHR ''0'' (take 6 padded)) = Some v"
    unfolding padded v by (simp add: padEnd_def parse6 [OF d])
  have tv: "ToInt32 v = v" using v0 small by (intro ToInt32_small) simp_all
  have hi: "js_and v 0x800000 = 0"
    using compact_parts(4) [of 0 v] v0 small by simp
  have len: "int (length padded div 2) = 3 + int z"
    unfolding padded by simp
  have "targetToBits (replicate p CHR ''0'' @ ?H @ ?Z)
      = js_or (js_shl (3 + int z) 24) v"
    unfolding targetToBits_def Let_def
    unfolding stripped0_def [symmetric] stripped_def [symmetric]
    unfolding padded_def [symmetric]
    by (simp add: parse ToInt32_opt_def tv hi len)
  also have "\<dots> = (3 + int z) * 0x1000000 + v"
    using z v0 small by (intro compact_join) simp_all
  finally show ?thesis .
qed

lemma targetToBits_short:
  assumes d: "d3 < 16" "d2 < 16" "d1 < 16" "d0 < 16"
    and lead: "8 \<le> d3"
    and v: "v = int (d3 * 16 ^ 3 + d2 * 16 ^ 2 + d1 * 16 + d0)"
    and z: "0 < z" "int z < 125"
  shows "targetToBits (replicate p CHR ''0''
           @ [hexChar 0, hexChar 0, hexChar d3, hexChar d2, hexChar d1, hexChar d0]
           @ replicate (2 * z) CHR ''0'')
         = (3 + int z) * 0x1000000 + v"
proof -
  let ?H = "[hexChar 0, hexChar 0, hexChar d3, hexChar d2, hexChar d1, hexChar d0]"
  let ?Z = "replicate (2 * z) CHR ''0''"
  define stripped0 where "stripped0 = dropWhile (\<lambda>c. c = CHR ''0'') (replicate p CHR ''0'' @ ?H @ ?Z)"
  define stripped where "stripped = (if stripped0 = [] then ''0'' else stripped0)"
  define padded where "padded = (if length stripped mod 2 \<noteq> 0 then CHR ''0'' # stripped else stripped)"
  have v0: "0x8000 \<le> v" using v lead by simp
  have v1: "v < 0x10000" using v d by simp
  have h0: "hexChar 0 = CHR ''0''" by (simp add: hexChar_def)
  obtain y where y: "z = Suc y" using z(1) by (cases z) simp_all
  have Z: "?Z = hexChar 0 # hexChar 0 # replicate (2 * y) CHR ''0''"
    by (simp add: y h0)
  have "d3 \<noteq> 0" using lead by simp
  then have "stripped0 = [hexChar d3, hexChar d2, hexChar d1, hexChar d0] @ ?Z"
    unfolding stripped0_def dropWhile_zeros using d by (simp add: hexChar_facts h0)
  then have padded: "padded = [hexChar d3, hexChar d2, hexChar d1, hexChar d0] @ ?Z"
    by (simp add: padded_def stripped_def)
  have z16: "(0::nat) < 16" by simp
  have "parseInt16 (padEnd 6 CHR ''0'' (take 6 padded))
      = Some (int (d3 * 16 ^ 5 + d2 * 16 ^ 4 + d1 * 16 ^ 3 + d0 * 16 ^ 2 + 0 * 16 + 0))"
    unfolding padded Z by (simp add: padEnd_def parse6 [OF d z16 z16])
  then have parse: "parseInt16 (padEnd 6 CHR ''0'' (take 6 padded)) = Some (v * 256)"
    unfolding v by simp
  have tv: "ToInt32 (v * 256) = v * 256" using v0 v1 by (intro ToInt32_small) simp_all
  have "bit (v * 256) 23 \<longleftrightarrow> odd (v * 256 div 2 ^ 23)" by (rule bit_iff_odd)
  moreover have "v * 256 div 2 ^ 23 = 1" using v0 v1 by simp
  ultimately have "bit (v * 256) 23" by simp
  moreover have "(v * 256 AND 2 ^ 23 = 0) = (\<not> bit (v * 256) 23)"
    by (rule and_exp_eq_0_iff_not_bit)
  ultimately have "v * 256 AND 2 ^ 23 \<noteq> 0" by simp
  moreover have "ToInt32 0x800000 = 2 ^ 23" by (simp add: ToInt32_def)
  ultimately have hi: "js_and (v * 256) 0x800000 \<noteq> 0"
    unfolding js_and_def tv by simp
  have sar: "js_sar (v * 256) 8 = v"
    unfolding js_sar_def tv by (simp add: drop_bit_eq_div)
  have len: "int (length padded div 2) = 2 + int z"
    unfolding padded by simp
  have "targetToBits (replicate p CHR ''0'' @ ?H @ ?Z)
      = js_or (js_shl (3 + int z) 24) v"
    unfolding targetToBits_def Let_def
    unfolding stripped0_def [symmetric] stripped_def [symmetric]
    unfolding padded_def [symmetric]
    using hi by (simp add: parse ToInt32_opt_def tv sar len)
  also have "\<dots> = (3 + int z) * 0x1000000 + v"
    using z v0 v1 by (intro compact_join) simp_all
  finally show ?thesis .
qed

lemma digit_sum6:
  assumes "(n::nat) < 16 ^ 6"
  shows "n = n div 16 ^ 5 * 16 ^ 5 + n div 16 ^ 4 mod 16 * 16 ^ 4 + n div 16 ^ 3 mod 16 * 16 ^ 3
     + n div 16 ^ 2 mod 16 * 16 ^ 2 + n div 16 mod 16 * 16 + n mod 16"
proof -
  have m: "x mod (16 ^ k * 16) = 16 ^ k * (x div 16 ^ k mod 16) + x mod 16 ^ k" for x k :: nat
    by (rule mod_mult2_eq)
  have "n = n mod (16 ^ 5 * 16)" using assms by simp
  also have "\<dots> = 16 ^ 5 * (n div 16 ^ 5 mod 16) + n mod 16 ^ 5" by (rule m)
  also have "n div 16 ^ 5 mod 16 = n div 16 ^ 5" using assms by simp
  also have "n mod 16 ^ 5 = n mod (16 ^ 4 * 16)" by simp
  also have "\<dots> = 16 ^ 4 * (n div 16 ^ 4 mod 16) + n mod 16 ^ 4" by (rule m)
  also have "n mod 16 ^ 4 = n mod (16 ^ 3 * 16)" by simp
  also have "\<dots> = 16 ^ 3 * (n div 16 ^ 3 mod 16) + n mod 16 ^ 3" by (rule m)
  also have "n mod 16 ^ 3 = n mod (16 ^ 2 * 16)" by simp
  also have "\<dots> = 16 ^ 2 * (n div 16 ^ 2 mod 16) + n mod 16 ^ 2" by (rule m)
  also have "n mod 16 ^ 2 = n mod (16 ^ 1 * 16)" by simp
  also have "\<dots> = 16 ^ 1 * (n div 16 ^ 1 mod 16) + n mod 16 ^ 1" by (rule m)
  finally show ?thesis by simp
qed

lemma bitsToTarget_unfold_high:
  assumes "js_and (js_sar b 24) 0xff = e" and "3 < e"
    and "(if js_and b 0x00800000 \<noteq> 0 then 0 else js_and b 0x007fffff) = c"
    and "\<not> 64 - (e - 3) * 2 - 6 < 0"
  shows "bitsToTarget b = take 64 (replicate (nat (64 - (e - 3) * 2 - 6)) CHR ''0''
      @ padStart 6 CHR ''0'' (toString16 c) @ replicate (nat ((e - 3) * 2)) CHR ''0'')"
  using assms by (simp add: bitsToTarget_def Let_def)

lemma bitsToTarget_placed:
  assumes e: "4 \<le> e" "e \<le> 32" and c: "0 \<le> c" "c < 0x800000"
  shows "bitsToTarget (e * 0x1000000 + c)
    = replicate (nat (64 - 2 * e)) CHR ''0'' @ padStart 6 CHR ''0'' (digits16 (nat c))
      @ replicate (2 * nat (e - 3)) CHR ''0''"
proof -
  have e': "0 \<le> e" "e < 128" using e by simp_all
  note parts = compact_parts [OF e' c]
  have ex: "js_and (js_sar (e * 0x1000000 + c) 24) 0xff = e"
    using exponentOf_parts [OF e' c] by (simp add: exponentOf_def)
  have n: "nat c < 16 ^ 6" using c by (simp add: nat_less_iff)
  have len: "length (padStart 6 CHR ''0'' (digits16 (nat c))) = 6"
    using digits16_length [of 6 "nat c"] n by (simp add: padStart_length)
  have co: "(if js_and (e * 0x1000000 + c) 0x00800000 \<noteq> 0 then 0
             else js_and (e * 0x1000000 + c) 0x007fffff) = c"
    by (simp add: parts)
  let ?X = "replicate (nat (64 - 2 * e)) CHR ''0'' @ padStart 6 CHR ''0'' (digits16 (nat c))
      @ replicate (2 * nat (e - 3)) CHR ''0''"
  have r: "nat ((e - 3) * 2) = 2 * nat (e - 3)" using e by simp
  have p: "64 - (e - 3) * 2 - 6 = 64 - 2 * e" by simp
  have ts: "toString16 c = digits16 (nat c)" using c by (simp add: toString16_def)
  have "length ?X \<le> 64" using e by (simp add: len)
  then have tk: "take 64 ?X = ?X" by (rule take_all)
  have "bitsToTarget (e * 0x1000000 + c) = take 64 ?X"
    using bitsToTarget_unfold_high [OF ex _ co] e unfolding r p ts by simp
  then show ?thesis unfolding tk .
qed

text \<open>
  Claim C1, as amended.  Let \<open>bits = e * 2 ^ 24 + c\<close> with exponent \<open>e\<close> in \<open>[4, 32]\<close>
  and a normalised coefficient \<open>c\<close> in \<open>[0x008000, 0x7fffff]\<close> (top bit clear, and not
  writable with a smaller exponent).  Then \<open>bitsToTarget\<close> reads \<open>e\<close> as the exponent and
  \<open>c\<close> as the coefficient with the sign bit clear, and
  \<open>targetToBits (bitsToTarget bits) = bits\<close>.
\<close>

theorem targetToBits_bitsToTarget_normalised:
  assumes "4 \<le> e" and "e \<le> 32" and "0x008000 \<le> c" and "c \<le> 0x7fffff"
  shows "exponentOf (e * 2 ^ 24 + c) = e
    \<and> js_and (e * 2 ^ 24 + c) 0x007fffff = c
    \<and> js_and (e * 2 ^ 24 + c) 0x00800000 = 0
    \<and> targetToBits (bitsToTarget (e * 2 ^ 24 + c)) = e * 2 ^ 24 + c"
proof -
  have e': "0 \<le> e" "e < 128" using assms by simp_all
  have c': "0 \<le> c" "c < 0x800000" using assms by simp_all
  define n where "n = nat c"
  define z where "z = nat (e - 3)"
  have n: "n < 16 ^ 6" "0x8000 \<le> n" "int n = c" using assms by (simp_all add: n_def)
  have z: "0 < z" "int z < 125" "3 + int z = e" using assms by (simp_all add: z_def)
  have dl: "n div 16 ^ 5 < 16" "n div 16 ^ 4 mod 16 < 16" "n div 16 ^ 3 mod 16 < 16"
    "n div 16 ^ 2 mod 16 < 16" "n div 16 mod 16 < 16" "n mod 16 < 16"
    using n(1) by simp_all
  have placed: "bitsToTarget (e * 0x1000000 + c)
    = replicate (nat (64 - 2 * e)) CHR ''0''
      @ [hexChar (n div 16 ^ 5), hexChar (n div 16 ^ 4 mod 16), hexChar (n div 16 ^ 3 mod 16),
         hexChar (n div 16 ^ 2 mod 16), hexChar (n div 16 mod 16), hexChar (n mod 16)]
      @ replicate (2 * z) CHR ''0''"
    unfolding bitsToTarget_placed [OF assms(1,2) c'] hex6 [OF n(1), folded n_def]
      n_def [symmetric] z_def [symmetric] ..
  have round: "targetToBits (bitsToTarget (e * 0x1000000 + c)) = e * 0x1000000 + c"
  proof (cases "n div 16 ^ 5 \<noteq> 0 \<or> n div 16 ^ 4 mod 16 \<noteq> 0")
    case True
    have v: "c = int (n div 16 ^ 5 * 16 ^ 5 + n div 16 ^ 4 mod 16 * 16 ^ 4
        + n div 16 ^ 3 mod 16 * 16 ^ 3 + n div 16 ^ 2 mod 16 * 16 ^ 2 + n div 16 mod 16 * 16
        + n mod 16)"
      unfolding n(3) [symmetric] by (rule arg_cong [where f = int]) (rule digit_sum6 [OF n(1)])
    show ?thesis unfolding placed
      using targetToBits_normal [OF dl True v c'(2) z(2)] z(3) by simp
  next
    case False
    then have hi: "n div 16 ^ 5 = 0" "n div 16 ^ 4 mod 16 = 0" by simp_all
    from digit_sum6 [OF n(1)]
    have "n = n div 16 ^ 3 mod 16 * 16 ^ 3 + n div 16 ^ 2 mod 16 * 16 ^ 2
        + n div 16 mod 16 * 16 + n mod 16"
      unfolding hi by (simp only: mult_zero_left add_0_left)
    then have v: "c = int (n div 16 ^ 3 mod 16 * 16 ^ 3 + n div 16 ^ 2 mod 16 * 16 ^ 2
        + n div 16 mod 16 * 16 + n mod 16)"
      unfolding n(3) [symmetric] by (rule arg_cong [where f = int])
    have "n < 16 ^ 5" using hi(1) by (simp add: div_eq_0_iff)
    then have "n div 16 ^ 4 < 16" by simp
    then have "n div 16 ^ 4 = 0" using hi(2) by simp
    then have "n < 16 ^ 4" by (simp add: div_eq_0_iff)
    then have "n div 16 ^ 3 < 16" by simp
    then have "n div 16 ^ 3 mod 16 = n div 16 ^ 3" by simp
    moreover have "8 \<le> n div 16 ^ 3" using n(2) by simp
    ultimately have lead: "8 \<le> n div 16 ^ 3 mod 16" by simp
    show ?thesis unfolding placed hi
      using targetToBits_short [OF dl(3,4,5,6) lead v z(1,2)] z(3) by simp
  qed
  have "exponentOf (e * 0x1000000 + c) = e" by (rule exponentOf_parts [OF e' c'])
  with round compact_parts(3,4) [OF e' c'] show ?thesis by simp
qed

text \<open>
  The genesis value \<open>0x1d00ffff\<close> (exponent 29, coefficient \<open>0x00ffff\<close>) round-trips.
\<close>

theorem targetToBits_bitsToTarget_normalised_witness:
  "targetToBits (bitsToTarget 0x1d00ffff) = 0x1d00ffff"
  using targetToBits_bitsToTarget_normalised [of 29 "0xffff"] by simp

lemma denormal_example:
  "3 < exponentOf 0x1d000001 \<and> js_and 0x1d000001 0x00800000 = 0
   \<and> targetToBits (bitsToTarget 0x1d000001) = 0x1b010000"
proof -
  have b: "(0x1d000001::int) = 29 * 0x1000000 + 1" by simp
  have "exponentOf (29 * 0x1000000 + 1) = 29" by (rule exponentOf_parts) simp_all
  moreover have "js_and (29 * 0x1000000 + 1) 0x00800000 = 0" by (rule compact_parts(4)) simp_all
  moreover have "bitsToTarget (29 * 0x1000000 + 1)
      = replicate 6 CHR ''0'' @ ''000001'' @ replicate 52 CHR ''0''"
    by (subst bitsToTarget_placed)
      (simp_all add: padStart_def digits16_small hexChar_def replicate_numeral)
  moreover have "replicate 6 CHR ''0'' @ ''000001'' @ replicate 52 CHR ''0''
      = replicate 10 CHR ''0'' @ [hexChar 0, hexChar 1, hexChar 0, hexChar 0, hexChar 0, hexChar 0]
        @ replicate (2 * 24) CHR ''0''"
    by (simp add: hexChar_def replicate_numeral)
  moreover have "targetToBits (replicate 10 CHR ''0''
        @ [hexChar 0, hexChar 1, hexChar 0, hexChar 0, hexChar 0, hexChar 0]
        @ replicate (2 * 24) CHR ''0'') = (3 + int 24) * 0x1000000 + 0x10000"
    by (rule targetToBits_normal) simp_all
  ultimately show ?thesis unfolding b by simp
qed

lemma targetToBits_all_f: "targetToBits (replicate 64 CHR ''f'') = 0x2100ffff"
proof -
  have d: "dropWhile (\<lambda>c. c = CHR ''0'') (replicate 64 CHR ''f'') = replicate 64 CHR ''f''"
    by (simp add: replicate_numeral)
  have p: "parseInt16 (padEnd 6 CHR ''0'' (replicate 6 CHR ''f'')) = Some 0xffffff"
    by (simp add: padEnd_def parseInt16_def isWhiteSpace_def isHexDigit_def hexDigitVal_def
        replicate_numeral Let_def)
  show ?thesis
    unfolding targetToBits_def Let_def d
    by (simp add: p ToInt32_opt_def js_and_def js_or_def js_shl_def js_sar_def ToInt32_def)
qed

lemma overflow_example:
  "3 < exponentOf 0x22123456 \<and> js_and 0x22123456 0x00800000 = 0
   \<and> targetToBits (bitsToTarget 0x22123456) = 0x2100ffff"
proof -
  have e: "exponentOf 0x22123456 = 34"
    by (simp add: exponentOf_def js_and_def js_sar_def ToInt32_def)
  have s: "js_and 0x22123456 0x00800000 = 0"
    by (simp add: js_and_def ToInt32_def)
  have "bitsToTarget 0x22123456 = replicate 64 CHR ''f''"
    using bitsToTarget_high [of "0x22123456"] e by simp
  then show ?thesis using e s by (simp add: targetToBits_all_f)
qed

text \<open>
  Claim C1, as stated, fails in two ways.  \<open>0x1d000001\<close> has exponent 29, above 3, and a
  coefficient with its top bit clear, and comes back as \<open>0x1b010000\<close>, the normalised form
  of the same target.  \<open>0x22123456\<close> has exponent 34: its target is clamped to all
  \<open>f\<close>, which comes back as \<open>0x2100ffff\<close>.
\<close>

theorem targetToBits_bitsToTarget_counterexample:
  "3 < exponentOf 0x1d000001 \<and> js_and 0x1d000001 0x00800000 = 0
   \<and> targetToBits (bitsToTarget 0x1d000001) = 0x1b010000
   \<and> 3 < exponentOf 0x22123456 \<and> js_and 0x22123456 0x00800000 = 0
   \<and> targetToBits (bitsToTarget 0x22123456) = 0x2100ffff"
  using denormal_example overflow_example by simp
section \<open>Facts about the difficulty calculator\<close>





































section \<open>Facts about the memory-hard derivation\<close>

lemma fold_length:
  assumes "\<And>x a. length (f x a) = length a"
  shows "length (fold f xs a) = length a"
  by (induction xs arbitrary: a) (simp_all add: assms)

lemma scryptBlockMix_length: "length (scryptBlockMix B r) = length B"
  unfolding scryptBlockMix_def Let_def
  by (rule fold_length) (simp add: fold_length)

lemma xorBlocks_length: "length (xorBlocks A B) = min (length A) (length B)"
  by (simp add: xorBlocks_def)

lemma rd_in_range: "k < length a \<Longrightarrow> rd a (int k) = a ! k"
  by (simp add: rd_def)

lemma xor_loop_nth:
  "n \<le> length B \<Longrightarrow>
   length (fold (\<lambda>k B. B[k := rd B (int k) XOR rd W (int k)]) [0..<n] B) = length B
    \<and> (\<forall>i < length B. fold (\<lambda>k B. B[k := rd B (int k) XOR rd W (int k)]) [0..<n] B ! i
        = (if i < n then B ! i XOR rd W (int i) else B ! i))"
proof (induction n)
  case 0
  show ?case by simp
next
  case (Suc n)
  let ?R = "fold (\<lambda>k B. B[k := rd B (int k) XOR rd W (int k)]) [0..<n] B"
  have n: "n < length B" using Suc(2) by simp
  have len: "length ?R = length B"
    and nth: "\<And>i. i < length B \<Longrightarrow> ?R ! i = (if i < n then B ! i XOR rd W (int i) else B ! i)"
    using Suc by simp_all
  have unf: "fold (\<lambda>k B. B[k := rd B (int k) XOR rd W (int k)]) [0..<Suc n] B
      = ?R[n := rd ?R (int n) XOR rd W (int n)]"
    by simp
  have rn: "rd ?R (int n) = B ! n"
    using nth [OF n] n len by (simp add: rd_def)
  show ?case unfolding unf rn
  proof (intro conjI allI impI)
    show "length (?R[n := B ! n XOR rd W (int n)]) = length B" by (simp add: len)
  next
    fix i
    assume i: "i < length B"
    show "?R[n := B ! n XOR rd W (int n)] ! i
        = (if i < Suc n then B ! i XOR rd W (int i) else B ! i)"
    proof (cases "i = n")
      case True
      then show ?thesis using n len by simp
    next
      case False
      then have "?R[n := B ! n XOR rd W (int n)] ! i = ?R ! i" by simp
      also have "\<dots> = (if i < n then B ! i XOR rd W (int i) else B ! i)" by (rule nth [OF i])
      finally show ?thesis using False by (simp add: less_Suc_eq)
    qed
  qed
qed

lemma xor_loop_eq:
  assumes "length W = length B"
  shows "fold (\<lambda>k B. B[k := rd B (int k) XOR rd W (int k)]) [0..<length B] B = xorBlocks B W"
proof (rule nth_equalityI)
  note l = xor_loop_nth [of "length B" B W, OF le_refl]
  show "length (fold (\<lambda>k B. B[k := rd B (int k) XOR rd W (int k)]) [0..<length B] B)
      = length (xorBlocks B W)"
    using l assms by (simp add: xorBlocks_length)
  fix i
  assume "i < length (fold (\<lambda>k B. B[k := rd B (int k) XOR rd W (int k)]) [0..<length B] B)"
  then have i: "i < length B" using l by simp
  then have "fold (\<lambda>k B. B[k := rd B (int k) XOR rd W (int k)]) [0..<length B] B ! i
      = B ! i XOR rd W (int i)"
    using l by simp
  also have "\<dots> = xorBlocks B W ! i"
    using i assms by (simp add: xorBlocks_def rd_in_range)
  finally show "fold (\<lambda>k B. B[k := rd B (int k) XOR rd W (int k)]) [0..<length B] B ! i
      = xorBlocks B W ! i" .
qed

lemma romixIndex_range:
  assumes "0 < N" and "N \<le> 2 ^ 31"
  shows "0 \<le> romixIndex B N r" and "romixIndex B N r < int N"
proof -
  have n: "0 \<le> int N - 1" "int N - 1 < 2 ^ 31"
    using assms by simp_all
  show "0 \<le> romixIndex B N r"
    unfolding romixIndex_def by (rule js_and_mask_bounds(1) [OF n])
  have "romixIndex B N r \<le> int N - 1"
    unfolding romixIndex_def by (rule js_and_mask_bounds(2) [OF n])
  then show "romixIndex B N r < int N" by simp
qed

lemma romixIndex_word:
  assumes "0 < r" and "length B = 32 * r"
  shows "romixIndex B N r = js_and (uint (B ! (32 * r - 16))) (int N - 1)"
proof -
  have "(2 * int r - 1) * 16 = int (32 * r - 16)" using assms(1) by simp
  moreover have "32 * r - 16 < length B" using assms by simp
  ultimately show ?thesis unfolding romixIndex_def by (simp only: rd_in_range)
qed

lemma romixStep_eq:
  assumes r: "0 < r" and B: "length B = 32 * r" and N: "0 < N" "N \<le> 2 ^ 31"
    and V: "length V = N" "blocksOfSize (32 * r) V"
  shows "romixStep V N r B = Inr (scryptBlockMix (xorBlocks B (V ! nat (romixIndex B N r))) r)"
proof -
  note j = romixIndex_range [OF N, of B r]
  have jn: "nat (romixIndex B N r) < length V" using j V(1) by simp
  then have "length (V ! nat (romixIndex B N r)) = 32 * r"
    using V(2) by (simp add: blocksOfSize_def list_all_length)
  then have "fold (\<lambda>k A. A[k := rd A (int k) XOR rd (V ! nat (romixIndex B N r)) (int k)])
      [0..<32 * r] B = xorBlocks B (V ! nat (romixIndex B N r))"
    using xor_loop_eq [of "V ! nat (romixIndex B N r)" B] B by simp
  then show ?thesis using j r V(1) by (simp add: romixStep_def Let_def)
qed

lemma romixMix_eq:
  assumes r: "0 < r" and N: "0 < N" "N \<le> 2 ^ 31"
    and V: "length V = N" "blocksOfSize (32 * r) V"
  shows "length B = 32 * r \<Longrightarrow> romixMix n V N r B = Inr (mixPhase n V N r B)"
proof (induction n arbitrary: B)
  case 0
  show ?case by simp
next
  case (Suc n)
  note j = romixIndex_range [OF N, of B r]
  have jn: "nat (romixIndex B N r) < length V" using j V(1) by simp
  then have "length (V ! nat (romixIndex B N r)) = 32 * r"
    using V(2) by (simp add: blocksOfSize_def list_all_length)
  then have "length (scryptBlockMix (xorBlocks B (V ! nat (romixIndex B N r))) r) = 32 * r"
    using Suc(2) by (simp add: scryptBlockMix_length xorBlocks_length)
  from Suc(1) [OF this] show ?case
    by (simp add: romixStep_eq [OF r Suc(2) N V])
qed

lemma romixFill_blocks:
  "length B = m \<Longrightarrow> blocksOfSize m V \<Longrightarrow>
   length (fst (romixFill n r B V)) = m
   \<and> length (snd (romixFill n r B V)) = length V + n
   \<and> blocksOfSize m (snd (romixFill n r B V))"
proof (induction n arbitrary: B V)
  case 0
  then show ?case by simp
next
  case (Suc n)
  have "length (scryptBlockMix B r) = m" using Suc(2) by (simp add: scryptBlockMix_length)
  moreover have "blocksOfSize m (V @ [B])" using Suc(2,3) by (simp add: blocksOfSize_def)
  ultimately show ?case using Suc(1) [of "scryptBlockMix B r" "V @ [B]"] by simp
qed

lemma scryptROMix_eq:
  assumes "0 < r" and "length B = 32 * r" and "0 < N" and "N \<le> 2 ^ 31"
  shows "scryptROMix B N r
     = Inr (mixPhase N (snd (romixFill N r B [])) N r (fst (romixFill N r B [])))"
proof -
  have e: "blocksOfSize (32 * r) []" by (simp add: blocksOfSize_def)
  note f = romixFill_blocks [OF assms(2) e, of N r]
  have n: "\<not> (2::nat) ^ 32 \<le> N" using assms(4) by simp
  have "romixMix N (snd (romixFill N r B [])) N r (fst (romixFill N r B []))
      = Inr (mixPhase N (snd (romixFill N r B [])) N r (fst (romixFill N r B [])))"
    using f by (intro romixMix_eq [OF assms(1,3,4)]) simp_all
  then show ?thesis unfolding scryptROMix_def using n by (simp add: case_prod_beta)
qed

lemma ex_index: "romixIndex exampleState 2 1 = 1"
  by (simp add: romixIndex_def exampleState_def rd_def js_and_def ToInt32_def nth_append)

lemma ex_index': "romixIndex exampleState 2 (Suc 0) = 1"
  using ex_index by simp

lemma ex_spec_index: "specIndex exampleState 2 = 0"
  by (simp add: specIndex_def exampleState_def rd_def js_and_def ToInt32_def nth_append)

lemma ex_sizes:
  "length exampleState = 32 * 1" "length exampleTable = 2" "blocksOfSize (32 * 1) exampleTable"
  by (simp_all add: exampleState_def exampleTable_def blocksOfSize_def)

text \<open>
  Claim C2, as amended.  For a state of \<open>32 * r\<close> words (\<open>r > 0\<close>), a cost
  \<open>0 < N \<le> 2 ^ 31\<close> and a table of \<open>N\<close> blocks of that size, every iteration of the mix
  phase computes \<open>j\<close> as the word at index \<open>(2 * r - 1) * 16 = 32 * r - 16\<close> of the
  state, that is the first word of its last 64-byte sub-block, ANDed with \<open>N - 1\<close>; this
  \<open>j\<close> lies in \<open>[0, N)\<close>; and the iteration sets the state to
  \<open>BlockMix(state XOR V[j])\<close>.  So the second loop of \<open>scryptROMix\<close>, and with it the
  whole function on the table it has filled, is \<open>mixPhase\<close> and never throws.
\<close>

theorem scryptROMix_mix_phase:
  assumes "0 < r" and "length B = 32 * r" and "0 < N" and "N \<le> 2 ^ 31"
    and "length V = N" and "blocksOfSize (32 * r) V"
  shows "romixIndex B N r = js_and (uint (B ! (32 * r - 16))) (int N - 1)
    \<and> 0 \<le> romixIndex B N r \<and> romixIndex B N r < int N
    \<and> romixStep V N r B = Inr (scryptBlockMix (xorBlocks B (V ! nat (romixIndex B N r))) r)
    \<and> romixMix n V N r B = Inr (mixPhase n V N r B)
    \<and> scryptROMix B N r
        = Inr (mixPhase N (snd (romixFill N r B [])) N r (fst (romixFill N r B [])))"
proof (intro conjI)
  show "romixIndex B N r = js_and (uint (B ! (32 * r - 16))) (int N - 1)"
    by (rule romixIndex_word [OF assms(1,2)])
  show "0 \<le> romixIndex B N r" by (rule romixIndex_range(1) [OF assms(3,4)])
  show "romixIndex B N r < int N" by (rule romixIndex_range(2) [OF assms(3,4)])
  show "romixStep V N r B = Inr (scryptBlockMix (xorBlocks B (V ! nat (romixIndex B N r))) r)"
    by (rule romixStep_eq [OF assms])
  show "romixMix n V N r B = Inr (mixPhase n V N r B)"
    by (rule romixMix_eq [OF assms(1,3,4,5,6,2)])
  show "scryptROMix B N r
        = Inr (mixPhase N (snd (romixFill N r B [])) N r (fst (romixFill N r B [])))"
    by (rule scryptROMix_eq [OF assms(1,2,3,4)])
qed

text \<open>
  For \<open>r = 1\<close> and \<open>N = 2\<close> the index is read from word 16 of the example state.
\<close>

theorem scryptROMix_mix_phase_witness:
  "romixIndex exampleState 2 1 = js_and (uint (exampleState ! 16)) 1
   \<and> romixStep exampleTable 2 1 exampleState
       = Inr (scryptBlockMix (xorBlocks exampleState (exampleTable ! 1)) 1)"
  using scryptROMix_mix_phase [of 1 exampleState 2 exampleTable 0] ex_sizes
  by (simp add: ex_index')

text \<open>
  Claim C2, as stated, fails: in the example state word 16 is 1 and the last word, word
  31, is 0, so for \<open>N = 2\<close> the code selects \<open>V[1]\<close> where the last word would select
  \<open>V[0]\<close>, and the two blocks handed to BlockMix differ.
\<close>

theorem romixIndex_not_last_word_counterexample:
  "romixIndex exampleState 2 1 = 1 \<and> specIndex exampleState 2 = 0
   \<and> romixStep exampleTable 2 1 exampleState
       = Inr (scryptBlockMix (xorBlocks exampleState (exampleTable ! 1)) 1)
   \<and> xorBlocks exampleState (exampleTable ! 1) \<noteq> xorBlocks exampleState (exampleTable ! 0)"
proof -
  have s: "romixStep exampleTable 2 1 exampleState
       = Inr (scryptBlockMix (xorBlocks exampleState (exampleTable ! 1)) 1)"
    using romixStep_eq [of 1 exampleState 2 exampleTable] ex_sizes by (simp add: ex_index')
  have "xorBlocks exampleState (exampleTable ! 1) ! 0 = 1"
    by (simp add: xorBlocks_def exampleState_def exampleTable_def replicate_numeral)
  moreover have "xorBlocks exampleState (exampleTable ! 0) ! 0 = 0"
    by (simp add: xorBlocks_def exampleState_def exampleTable_def replicate_numeral)
  ultimately have "xorBlocks exampleState (exampleTable ! 1) \<noteq> xorBlocks exampleState (exampleTable ! 0)"
    by (metis zero_neq_one)
  with s ex_index ex_spec_index show ?thesis by simp
qed


end
